theory Spec2Isabelle
  imports Complex_Main "HOL-Library.Multiset"
begin

section \<open>Steps\<close>

text \<open>
  Every generator of the repository yields plain objects with an \<open>array\<close> snapshot and
  up to four further properties.  A property that the yielded object literal does not
  mention is absent (\<open>None\<close>); the consumer \<open>animateSort\<close> destructures with defaults.
  Positions and counters are naturals.  Keys are naturals as well: \<open>execute\<close> builds the
  arrays \<open>0..n-1\<close> and the drivers only compare, copy and (radix sort) take digits of keys.
\<close>

record 'a step =
  array :: "'a list"
  swappedIndexes :: "nat list option"
  compareIndexes :: "nat list option"
  comparisons :: "nat option"
  swaps :: "nat option"

text \<open>Reading a property with the default \<open>[]\<close>, as the destructuring in \<open>animateSort\<close> does.\<close>

definition or_empty :: "nat list option \<Rightarrow> nat list" where
  "or_empty v = (case v of None \<Rightarrow> [] | Some l \<Rightarrow> l)"

section \<open>The playback scheduler: \<open>animateSort\<close> (main.js)\<close>

text \<open>
  JavaScript numbers that \<open>Math.ceil(frameDuration / interval)\<close> can produce for integer
  arguments: a finite integer, an infinity (division by zero) or NaN (\<open>0 / 0\<close>).
  For integers below \<open>2^53\<close> the double quotient rounds to an integer only when the exact
  quotient is one, so the ceiling of the double is the ceiling of the exact quotient.
\<close>

datatype number = Finite int | PosInfinity | NegInfinity | NaN

definition ceil_div :: "int \<Rightarrow> int \<Rightarrow> number" where
  "ceil_div a b =
     (if b = 0 then (if 0 < a then PosInfinity else if a < 0 then NegInfinity else NaN)
      else Finite (- ((- a) div b)))"

text \<open>The loop test \<open>i < numStepsPerFrame\<close>; every comparison with NaN is false.\<close>

fun less_number :: "nat \<Rightarrow> number \<Rightarrow> bool" where
  "less_number i (Finite k) = (int i < k)"
| "less_number i PosInfinity = True"
| "less_number i NegInfinity = False"
| "less_number i NaN = False"

datatype color = Red | Green

datatype 'a entry =
  Entry (entry_array: "'a list") (colored: "(nat list \<times> color) list") (soundIndexes: "nat list")

definition push_entry :: "'a step \<Rightarrow> 'a entry" where
  "push_entry result =
     (let swapped = or_empty (swappedIndexes result);
          compared = or_empty (compareIndexes result)
      in Entry (array result) [(compared, Red), (swapped, Green)]
           (if length compared = 0 then swapped else compared))"

text \<open>
  The drain loop \<open>for (let result of generator(finalArray, yieldCompare))\<close>.  A generator
  run is represented by the list of all steps it yields and the contents it leaves in the
  array it was given; the loop pulls a prefix of that list.  \<open>finalArray\<close> starts as the
  array the generator mutates in place and is rebound to each consumed snapshot.
\<close>

fun drain_loop ::
  "'a step list \<Rightarrow> nat \<Rightarrow> 'a entry list \<Rightarrow> 'a list \<Rightarrow> 'a entry list \<times> 'a list" where
  "drain_loop [] i colorAndSoundQueue finalArray = (colorAndSoundQueue, finalArray)"
| "drain_loop (result # rest) i colorAndSoundQueue finalArray =
     (if i + 1 > 80000 then (colorAndSoundQueue, finalArray)
      else drain_loop rest (i + 1) (colorAndSoundQueue @ [push_entry result]) (array result))"

text \<open>\<open>Set.add\<close> followed by \<open>Array.from\<close>: a set lists its members in insertion order.\<close>

definition set_add :: "nat list \<Rightarrow> nat \<Rightarrow> nat list" where
  "set_add s index = (if index \<in> set s then s else s @ [index])"

type_synonym 'a combined = "'a list option \<times> (nat list \<times> color) list \<times> nat list"

text \<open>The inner \<open>for\<close> loop that folds up to \<open>numStepsPerFrame\<close> queue entries into a frame.\<close>

fun frame_loop ::
  "number \<Rightarrow> nat \<Rightarrow> 'a entry list \<Rightarrow> 'a combined \<Rightarrow> 'a combined \<times> 'a entry list" where
  "frame_loop numStepsPerFrame i [] acc = (acc, [])"
| "frame_loop numStepsPerFrame i (e # queue) (combinedArray, combinedColored, combinedSoundIndexes) =
     (if less_number i numStepsPerFrame then
        frame_loop numStepsPerFrame (i + 1) queue
          (Some (entry_array e), combinedColored @ colored e,
           if i = 0 then fold (\<lambda>index s. set_add s index) (soundIndexes e) combinedSoundIndexes
           else combinedSoundIndexes)
      else ((combinedArray, combinedColored, combinedSoundIndexes), e # queue))"

text \<open>
  Presentation effects on the canvas and on the audio output, in the order they happen.
  The keys that \<open>animateSort\<close> presents are naturals, and so are the two durations
  \<open>interval\<close> and \<open>frameDuration\<close>, millisecond counts read from the form.

  \<^item> \<open>DrawBackground\<close>: \<open>context.drawImage(image, 0, 0, ...)\<close> on the resized canvas
    (main.js line 78).
  \<^item> \<open>ClearCanvas\<close>: \<open>context.clearRect\<close> (line 111), after the canvas was cut into
    off-screen segments.
  \<^item> \<open>DrawSegment i k\<close>: segment \<open>k\<close> and its label drawn at position \<open>i\<close>
    (lines 118 and 129).
  \<^item> \<open>FillSegment index color\<close>: one \<open>fillRect\<close> of the highlight loop (line 141).
  \<^item> \<open>PlayBeep duration n indexes\<close>: the tones still sounding are stopped and one tone
    is started for each index.
  \<^item> \<open>Asleep ms\<close>: the awaited \<open>setTimeout\<close>.
\<close>

datatype error = TypeError

datatype effect =
    DrawBackground
  | ClearCanvas
  | DrawSegment nat nat
  | FillSegment nat color
  | PlayBeep nat nat "nat list"
  | Asleep nat

text \<open>
  The loop \<open>for (let i = 0; i < segmentCount; i++)\<close> that redraws the canvas (lines
  114 to 132).  \<open>segments[order[i]]\<close> is \<open>undefined\<close> unless \<open>order[i]\<close> is one of the
  segment indexes \<open>0 .. segmentCount - 1\<close>, and \<open>drawImage\<close> rejects \<open>undefined\<close> with a
  \<open>TypeError\<close>.  The canvas is taken to have a positive height and at least one pixel
  column per segment, so that every segment is an image that can be drawn.
\<close>

function draw_segments :: "nat list \<Rightarrow> nat \<Rightarrow> effect list \<Rightarrow> effect list \<times> error option" where
  "draw_segments order' i trace =
     (if i < length order' then
        (let segmentIndex = order' ! i in
         if segmentIndex < length order'
         then draw_segments order' (i + 1) (trace @ [DrawSegment i segmentIndex])
         else (trace, Some TypeError))
      else (trace, None))"
  by pat_completeness auto
termination
  by (relation "measure (\<lambda>(order', i, trace). length order' - i)") auto

declare draw_segments.simps [simp del]

text \<open>The loop \<open>for (const { indexes, color } of colored)\<close> with its \<open>indexes.forEach\<close>.\<close>

definition fill_colored :: "(nat list \<times> color) list \<Rightarrow> effect list" where
  "fill_colored colored' =
     concat (map (\<lambda>(indexes, color). map (\<lambda>index. FillSegment index color) indexes) colored')"

text \<open>
  \<open>rearrangeImage\<close>: the background is drawn before \<open>order.length\<close> is read (line 80),
  which throws a \<open>TypeError\<close> when \<open>order\<close> is \<open>undefined\<close>.  The result is the effects
  performed and the error thrown, if any.
\<close>

definition rearrangeImage ::
  "nat list option \<Rightarrow> (nat list \<times> color) list \<Rightarrow> effect list \<times> error option" where
  "rearrangeImage order' colored' =
     (case order' of
        None \<Rightarrow> ([DrawBackground], Some TypeError)
      | Some ord \<Rightarrow>
          (case draw_segments ord 0 [DrawBackground, ClearCanvas] of
             (trace, Some e) \<Rightarrow> (trace, Some e)
           | (trace, None) \<Rightarrow> (trace @ fill_colored colored', None)))"

text \<open>
  \<open>playBeep\<close> stops the tones still sounding and then, for each index \<open>i\<close>, sets the
  frequency \<open>20 + 5980 * (i / n)\<close> and starts a tone.  For \<open>n = 0\<close> that value is not a
  finite number, and \<open>frequency.setValueAtTime\<close> rejects it with a \<open>TypeError\<close> before
  the first tone starts.
\<close>

definition playBeep :: "nat \<Rightarrow> nat \<Rightarrow> nat list \<Rightarrow> effect list \<times> error option" where
  "playBeep duration n indexes =
     (if indexes \<noteq> [] \<and> n = 0 then ([PlayBeep duration n []], Some TypeError)
      else ([PlayBeep duration n indexes], None))"

lemma frame_loop_length:
  "length (snd (frame_loop k i queue acc)) \<le> length queue"
  by (induction k i queue acc rule: frame_loop.induct) auto

lemma frame_loop_consumes:
  assumes "frame_loop k 0 queue (None, [], []) = ((Some a, cc, cs), queue')"
  shows "length queue' < length queue"
proof (cases queue)
  case Nil
  with assms show ?thesis by simp
next
  case (Cons e q)
  show ?thesis
  proof (cases "less_number 0 k")
    case False
    with assms Cons show ?thesis by simp
  next
    case True
    have "length (snd (frame_loop k (0 + 1) q
        (Some (entry_array e), [] @ colored e,
         if (0::nat) = 0 then fold (\<lambda>index s. set_add s index) (soundIndexes e) [] else [])))
      \<le> length q"
      by (rule frame_loop_length)
    with assms Cons True show ?thesis by simp
  qed
qed


lemma rearrangeImage_defined:
  "rearrangeImage order' cc = (drawn, None) \<Longrightarrow> \<exists>ord. order' = Some ord"
  by (cases order') (simp_all add: rearrangeImage_def)

text \<open>
  The presentation loop \<open>while (colorAndSoundQueue.length > 0)\<close>.  The effects performed
  so far are accumulated in \<open>trace\<close>; the loop ends normally (\<open>None\<close>) when the queue is
  empty and abnormally when \<open>rearrangeImage\<close> or \<open>playBeep\<close> throws.  \<open>d\<close> is
  \<open>Math.max(frameDuration, interval)\<close> and \<open>n\<close> is \<open>arr.length\<close>.
\<close>

function present ::
  "number \<Rightarrow> nat \<Rightarrow> nat \<Rightarrow> nat entry list \<Rightarrow> effect list \<Rightarrow> effect list \<times> error option" where
  "present numStepsPerFrame d n colorAndSoundQueue trace =
     (if length colorAndSoundQueue > 0 then
        (case frame_loop numStepsPerFrame 0 colorAndSoundQueue (None, [], []) of
           ((combinedArray, combinedColored, combinedSoundIndexes), queue') \<Rightarrow>
             (case rearrangeImage combinedArray combinedColored of
                (drawn, Some e) \<Rightarrow> (trace @ drawn, Some e)
              | (drawn, None) \<Rightarrow>
                  (case playBeep d n combinedSoundIndexes of
                     (beeped, Some e) \<Rightarrow> (trace @ drawn @ beeped, Some e)
                   | (beeped, None) \<Rightarrow>
                       present numStepsPerFrame d n queue'
                         (trace @ drawn @ beeped @ [Asleep d]))))
      else (trace, None))"
  by pat_completeness auto
termination
proof (relation "measure (\<lambda>(k, d, n, queue, trace). length queue)", goal_cases)
  case 1
  show ?case by simp
next
  case (2 k d n queue trace acc queue' combinedArray rest combinedColored combinedSoundIndexes
      drawn thrown beeped thrown')
  from 2(5,6) obtain ord where "combinedArray = Some ord"
    using rearrangeImage_defined [of combinedArray combinedColored drawn] by auto
  with 2(2,3,4) have "frame_loop k 0 queue (None, [], []) =
      ((Some ord, combinedColored, combinedSoundIndexes), queue')"
    by simp
  from frame_loop_consumes [OF this] show ?case by simp
qed

declare present.simps [simp del]

lemma present_empty [simp]: "present k d n [] trace = (trace, None)"
  by (subst present.simps) simp

text \<open>
  \<open>animateSort\<close>.  \<open>generator arr yieldCompare\<close> stands for the run of
  \<open>generator(finalArray, yieldCompare)\<close> on the copy \<open>[...arr]\<close>: the steps it yields and
  the contents it leaves in that copy.  The result is the trace of effects together with
  the rejection or the returned array.
\<close>

definition animateSort ::
  "nat list \<Rightarrow> nat \<Rightarrow> nat \<Rightarrow> (nat list \<Rightarrow> bool \<Rightarrow> nat step list \<times> nat list) \<Rightarrow> bool
   \<Rightarrow> effect list \<times> (error + nat list)" where
  "animateSort arr interval frameDuration generator yieldCompare =
     (let numStepsPerFrame = ceil_div (int frameDuration) (int interval);
          (results, settled) = generator arr yieldCompare;
          (colorAndSoundQueue, finalArray) = drain_loop results 0 [] settled;
          (trace, thrown) =
             present numStepsPerFrame (max frameDuration interval) (length arr)
               colorAndSoundQueue []
      in case thrown of
           Some e \<Rightarrow> (trace, Inl e)
         | None \<Rightarrow>
            (case rearrangeImage (Some finalArray) [] of
               (drawn, Some e) \<Rightarrow> (trace @ drawn, Inl e)
             | (drawn, None) \<Rightarrow> (trace @ drawn, Inr finalArray)))"

section \<open>Shuffle and accent generators (strategy.js)\<close>

text \<open>The destructuring swap \<open>[arr[i], arr[j]] = [arr[j], arr[i]]\<close>.\<close>

definition swap :: "'a list \<Rightarrow> nat \<Rightarrow> nat \<Rightarrow> 'a list" where
  "swap arr i j = arr[i := arr ! j, j := arr ! i]"

text \<open>
  \<open>shuffleGenerator\<close>: \<open>random i\<close> is the value of \<open>Math.floor(Math.random() * (i + 1))\<close>
  drawn in the iteration for \<open>i\<close>, a position in \<open>0..i\<close>.  The loop counts \<open>i\<close> down from
  \<open>arr.length - 1\<close> while \<open>i > 0\<close>.
\<close>

fun shuffle_loop :: "(nat \<Rightarrow> nat) \<Rightarrow> nat \<Rightarrow> 'a list \<Rightarrow> 'a step list \<times> 'a list" where
  "shuffle_loop random 0 arr = ([], arr)"
| "shuffle_loop random (Suc i') arr =
     (let i = Suc i';
          j = random i;
          arr = swap arr i j;
          result = \<lparr>array = arr, swappedIndexes = None, compareIndexes = Some [i, j],
                    comparisons = None, swaps = None\<rparr>;
          (rest, settled) = shuffle_loop random i' arr
      in (result # rest, settled))"

definition shuffleGenerator :: "(nat \<Rightarrow> nat) \<Rightarrow> 'a list \<Rightarrow> 'a step list \<times> 'a list" where
  "shuffleGenerator random arr = shuffle_loop random (length arr - 1) arr"

definition accentGenerator :: "'a list \<Rightarrow> 'a step list \<times> 'a list" where
  "accentGenerator arr =
     (map (\<lambda>i. \<lparr>array = arr, swappedIndexes = Some [i], compareIndexes = None,
                 comparisons = None, swaps = None\<rparr>) [0..<length arr]
      @ [\<lparr>array = arr, swappedIndexes = None, compareIndexes = None,
           comparisons = None, swaps = None\<rparr>],
      arr)"

section \<open>Driver state\<close>

text \<open>
  A sort driver mutates the array it was given, keeps two counters (the \<open>stats\<close> object,
  or the locals \<open>comparisons\<close> and \<open>swaps\<close>) and yields steps.  The state of one driver
  invocation is the array contents, the counters and the steps yielded so far.
\<close>

record 'a sorting =
  arr :: "'a list"
  stats_comparisons :: nat
  stats_swaps :: nat
  yielded :: "'a step list"

definition initial :: "'a list \<Rightarrow> 'a sorting" where
  "initial a = \<lparr>arr = a, stats_comparisons = 0, stats_swaps = 0, yielded = []\<rparr>"

text \<open>
  \<open>yield { array: [...arr], swappedIndexes, compareIndexes, comparisons, swaps }\<close>, where
  either index property may be missing from the object literal.
\<close>

definition yield :: "nat list option \<Rightarrow> nat list option \<Rightarrow> 'a sorting \<Rightarrow> 'a sorting" where
  "yield swapped compared s =
     s\<lparr>yielded := yielded s @
        [\<lparr>array = arr s, swappedIndexes = swapped, compareIndexes = compared,
          comparisons = Some (stats_comparisons s), swaps = Some (stats_swaps s)\<rparr>]\<rparr>"

text \<open>\<open>if (yieldCompare) yield ...\<close>\<close>

definition yield_if :: "bool \<Rightarrow> nat list option \<Rightarrow> nat list option \<Rightarrow> 'a sorting \<Rightarrow> 'a sorting" where
  "yield_if yieldCompare swapped compared s =
     (if yieldCompare then yield swapped compared s else s)"

definition count_comparison :: "'a sorting \<Rightarrow> 'a sorting" where
  "count_comparison s = s\<lparr>stats_comparisons := stats_comparisons s + 1\<rparr>"

definition count_swaps :: "nat \<Rightarrow> 'a sorting \<Rightarrow> 'a sorting" where
  "count_swaps k s = s\<lparr>stats_swaps := stats_swaps s + k\<rparr>"

text \<open>\<open>arr[i] = v\<close> for a position inside the array, and the destructuring exchange.\<close>

definition store :: "nat \<Rightarrow> 'a \<Rightarrow> 'a sorting \<Rightarrow> 'a sorting" where
  "store i v s = s\<lparr>arr := (arr s)[i := v]\<rparr>"

definition exchange :: "nat \<Rightarrow> nat \<Rightarrow> 'a sorting \<Rightarrow> 'a sorting" where
  "exchange i j s = s\<lparr>arr := swap (arr s) i j\<rparr>"

text \<open>What \<open>animateSort\<close> sees of a driver: the steps and the contents left in the array.\<close>

definition generator_of ::
  "('a list \<Rightarrow> bool \<Rightarrow> 'a sorting) \<Rightarrow> 'a list \<Rightarrow> bool \<Rightarrow> 'a step list \<times> 'a list" where
  "generator_of driver a yieldCompare =
     (let s = driver a yieldCompare in (yielded s, arr s))"

section \<open>Merge sort (strategy.js)\<close>

text \<open>The first \<open>while\<close> loop of \<open>merge\<close>; it returns the locals \<open>i\<close>, \<open>j\<close> and \<open>merged\<close>.\<close>

function merge_loop ::
  "bool \<Rightarrow> nat \<Rightarrow> nat \<Rightarrow> nat \<Rightarrow> nat \<Rightarrow> nat list \<Rightarrow> nat sorting
   \<Rightarrow> (nat \<times> nat \<times> nat list) \<times> nat sorting" where
  "merge_loop yieldCompare mid right i j merged s =
     (if i \<le> mid \<and> j \<le> right then
        (let s = count_comparison s;
             s = yield_if yieldCompare (Some []) (Some [i, j]) s
         in if arr s ! i \<le> arr s ! j
            then merge_loop yieldCompare mid right (i + 1) j (merged @ [arr s ! i]) s
            else merge_loop yieldCompare mid right i (j + 1) (merged @ [arr s ! j]) s)
      else ((i, j, merged), s))"
  by pat_completeness auto
termination
  by (relation "measure (\<lambda>(yc, mid, right, i, j, merged, s). (mid + 1 - i) + (right + 1 - j))")
    auto

declare merge_loop.simps [simp del]

text \<open>
  \<open>merge\<close>.  The two copy loops \<open>while (i <= mid) merged.push(arr[i++])\<close> and the one for
  \<open>j\<close> append the remaining positions in order; the write-back loop stores
  \<open>merged[k - left]\<close> at every \<open>k\<close> from \<open>left\<close> to \<open>right\<close>; \<open>swappedIndexes\<close> collects the
  positions of the range that differ from \<open>initialArray\<close>.
\<close>

definition merge :: "bool \<Rightarrow> nat \<Rightarrow> nat \<Rightarrow> nat \<Rightarrow> nat sorting \<Rightarrow> nat sorting" where
  "merge yieldCompare left mid right s =
     (let initialArray = arr s;
          ((i, j, merged), s) = merge_loop yieldCompare mid right left (mid + 1) [] s;
          merged = merged @ map (\<lambda>k. arr s ! k) [i..<Suc mid];
          merged = merged @ map (\<lambda>k. arr s ! k) [j..<Suc right];
          s = fold (\<lambda>k. store k (merged ! (k - left))) [left..<Suc right] s;
          swapped = filter (\<lambda>k. arr s ! k \<noteq> initialArray ! k) [left..<Suc right]
      in if yieldCompare \<and> length swapped > 0
         then yield (Some swapped) (Some []) (count_swaps (length swapped) s)
         else s)"

function mergeSortRecursive :: "bool \<Rightarrow> nat \<Rightarrow> nat \<Rightarrow> nat sorting \<Rightarrow> nat sorting" where
  "mergeSortRecursive yieldCompare left right s =
     (if left < right then
        (let mid = (left + right) div 2;
             s = mergeSortRecursive yieldCompare left mid s;
             s = mergeSortRecursive yieldCompare (mid + 1) right s
         in merge yieldCompare left mid right s)
      else s)"
  by pat_completeness auto
termination
  by (relation "measure (\<lambda>(yc, left, right, s). right - left)") auto

declare mergeSortRecursive.simps [simp del]

text \<open>\<open>mergeSort\<close> calls the recursion on \<open>0 .. arr.length - 1\<close> and yields nothing itself.\<close>

definition mergeSort :: "nat list \<Rightarrow> bool \<Rightarrow> nat sorting" where
  "mergeSort a yieldCompare =
     mergeSortRecursive yieldCompare 0 (length a - 1) (initial a)"

section \<open>Bubble sort\<close>

text \<open>
  The inner loop \<open>for (let j = 0; j < n - 1 - i; j++)\<close>; the bound is written without
  subtraction.  It returns the flag \<open>swapped\<close> with the state.
\<close>

function bubble_inner ::
  "bool \<Rightarrow> nat \<Rightarrow> nat \<Rightarrow> nat \<Rightarrow> bool \<Rightarrow> nat sorting \<Rightarrow> bool \<times> nat sorting" where
  "bubble_inner yieldCompare n i j swapped s =
     (if j + 1 + i < n then
        (let s = count_comparison s;
             s = yield_if yieldCompare (Some []) (Some [j, j + 1]) s
         in if arr s ! j > arr s ! (j + 1) then
              (let s = exchange j (j + 1) s;
                   s = count_swaps 1 s;
                   s = yield_if yieldCompare (Some [j, j + 1]) (Some []) s
               in bubble_inner yieldCompare n i (j + 1) True s)
            else bubble_inner yieldCompare n i (j + 1) swapped s)
      else (swapped, s))"
  by pat_completeness auto
termination
  by (relation "measure (\<lambda>(yc, n, i, j, swapped, s). n - j)") auto

declare bubble_inner.simps [simp del]

text \<open>The outer loop \<open>for (let i = 0; i < n - 1; i++)\<close> with its \<open>break\<close>.\<close>

function bubble_outer :: "bool \<Rightarrow> nat \<Rightarrow> nat \<Rightarrow> nat sorting \<Rightarrow> nat sorting" where
  "bubble_outer yieldCompare n i s =
     (if i + 1 < n then
        (case bubble_inner yieldCompare n i 0 False s of
           (swapped, s) \<Rightarrow>
             if \<not> swapped then s else bubble_outer yieldCompare n (i + 1) s)
      else s)"
  by pat_completeness auto
termination
  by (relation "measure (\<lambda>(yc, n, i, s). n - i)") auto

declare bubble_outer.simps [simp del]

definition bubbleSort :: "nat list \<Rightarrow> bool \<Rightarrow> nat sorting" where
  "bubbleSort a yieldCompare =
     (let s = bubble_outer yieldCompare (length a) 0 (initial a)
      in yield_if yieldCompare (Some []) (Some []) s)"

section \<open>Selection sort\<close>

text \<open>
  The inner loop \<open>for (let j = i + 1; j < n; j++)\<close>; it returns \<open>minIndex\<close>.
  \<open>previousSwappedIndexes\<close> is passed along as \<open>previous\<close>.
\<close>

function selection_inner ::
  "bool \<Rightarrow> nat \<Rightarrow> nat \<Rightarrow> nat \<Rightarrow> nat \<Rightarrow> nat list \<Rightarrow> nat sorting \<Rightarrow> nat \<times> nat sorting" where
  "selection_inner yieldCompare n i j minIndex previous s =
     (if j < n then
        (let s = count_comparison s;
             s = yield_if yieldCompare (Some previous) (Some [i, j]) s;
             minIndex = (if arr s ! j < arr s ! minIndex then j else minIndex)
         in selection_inner yieldCompare n i (j + 1) minIndex previous s)
      else (minIndex, s))"
  by pat_completeness auto
termination
  by (relation "measure (\<lambda>(yc, n, i, j, minIndex, previous, s). n - j)") auto

declare selection_inner.simps [simp del]

text \<open>The outer loop \<open>for (let i = 0; i < n - 1; i++)\<close>, the bound written as \<open>i + 1 < n\<close>.\<close>

function selection_outer ::
  "bool \<Rightarrow> nat \<Rightarrow> nat \<Rightarrow> nat list \<Rightarrow> nat sorting \<Rightarrow> nat sorting" where
  "selection_outer yieldCompare n i previous s =
     (if i + 1 < n then
        (case selection_inner yieldCompare n i (i + 1) i previous s of
           (minIndex, s) \<Rightarrow>
             if minIndex \<noteq> i then
               (let s = exchange i minIndex s;
                    s = count_swaps 1 s;
                    previous = [i, minIndex];
                    s = yield (Some previous) None s
                in selection_outer yieldCompare n (i + 1) previous s)
             else selection_outer yieldCompare n (i + 1) previous s)
      else s)"
  by pat_completeness auto
termination
  by (relation "measure (\<lambda>(yc, n, i, previous, s). n - i)") auto

declare selection_outer.simps [simp del]

definition selectionSort :: "nat list \<Rightarrow> bool \<Rightarrow> nat sorting" where
  "selectionSort a yieldCompare =
     (let s = selection_outer yieldCompare (length a) 0 [] (initial a)
      in yield None None s)"

section \<open>Insertion sort\<close>

text \<open>
  The loop \<open>while (j >= 0 && arr[j] > key)\<close>.  \<open>j\<close> reaches \<open>-1\<close> in the source; the model
  carries \<open>j1 = j + 1\<close>, so the test reads \<open>j1 \<ge> 1\<close>, \<open>arr[j]\<close> is \<open>arr ! (j1 - 1)\<close> and
  \<open>arr[j + 1]\<close> is \<open>arr ! j1\<close>.  After \<open>j = j - 1\<close> the pair \<open>[j + 1, j + 2]\<close> is
  \<open>[j1 - 1, j1]\<close> for the old \<open>j1\<close>.  It returns \<open>j1\<close> and \<open>previousSwappedIndexes\<close>.
\<close>

function insertion_while ::
  "bool \<Rightarrow> nat \<Rightarrow> nat \<Rightarrow> nat list \<Rightarrow> nat sorting \<Rightarrow> (nat \<times> nat list) \<times> nat sorting" where
  "insertion_while yieldCompare key j1 previous s =
     (if j1 \<ge> 1 \<and> arr s ! (j1 - 1) > key then
        (let s = count_comparison s;
             s = yield_if yieldCompare (Some previous) (Some [j1 - 1, j1]) s;
             s = store j1 (arr s ! (j1 - 1)) s;
             s = count_swaps 1 s;
             previous = [j1 - 1, j1]
         in insertion_while yieldCompare key (j1 - 1) previous s)
      else ((j1, previous), s))"
  by pat_completeness auto
termination
  by (relation "measure (\<lambda>(yc, key, j1, previous, s). j1)") auto

declare insertion_while.simps [simp del]

text \<open>The outer loop \<open>for (let i = 1; i < n; i++)\<close>.\<close>

function insertion_outer ::
  "bool \<Rightarrow> nat \<Rightarrow> nat \<Rightarrow> nat list \<Rightarrow> nat sorting \<Rightarrow> nat sorting" where
  "insertion_outer yieldCompare n i previous s =
     (if i < n then
        (let key = arr s ! i in
         case insertion_while yieldCompare key i previous s of
           ((j1, previous), s) \<Rightarrow>
             (let s = store j1 key s;
                  s = yield (Some previous) None s
              in insertion_outer yieldCompare n (i + 1) previous s))
      else s)"
  by pat_completeness auto
termination
  by (relation "measure (\<lambda>(yc, n, i, previous, s). n - i)") auto

declare insertion_outer.simps [simp del]

definition insertionSort :: "nat list \<Rightarrow> bool \<Rightarrow> nat sorting" where
  "insertionSort a yieldCompare =
     (let s = insertion_outer yieldCompare (length a) 1 [] (initial a)
      in yield None None s)"

section \<open>Binary insertion sort\<close>

text \<open>
  The binary search \<open>while (left <= right)\<close>.  \<open>right\<close> reaches \<open>-1\<close> in the source; the
  model carries \<open>right1 = right + 1\<close>, so the test reads \<open>left < right1\<close>,
  \<open>Math.floor((left + right) / 2)\<close> is \<open>(left + right1 - 1) div 2\<close> and \<open>right = mid - 1\<close>
  is \<open>right1 = mid\<close>.  It returns \<open>insertIndex\<close>.
\<close>

function binary_search ::
  "bool \<Rightarrow> nat \<Rightarrow> nat \<Rightarrow> nat \<Rightarrow> nat \<Rightarrow> nat \<Rightarrow> nat list \<Rightarrow> nat sorting \<Rightarrow> nat \<times> nat sorting" where
  "binary_search yieldCompare key i left right1 insertIndex previous s =
     (if left < right1 then
        (let s = count_comparison s;
             mid = (left + right1 - 1) div 2;
             s = yield_if yieldCompare (Some previous) (Some [mid, i]) s
         in if arr s ! mid > key
            then binary_search yieldCompare key i left mid mid previous s
            else binary_search yieldCompare key i (mid + 1) right1 insertIndex previous s)
      else (insertIndex, s))"
  by pat_completeness auto
termination
  by (relation "measure (\<lambda>(yc, key, i, left, right1, insertIndex, previous, s). right1 - left)")
    auto

declare binary_search.simps [simp del]

text \<open>
  The shift loop \<open>for (let k = j; k >= insertIndex; k--)\<close>, with \<open>k1 = k + 1\<close>: the test
  reads \<open>k1 > insertIndex\<close>, \<open>arr[k + 1] = arr[k]\<close> stores \<open>arr ! (k1 - 1)\<close> at \<open>k1\<close>.  It
  returns \<open>previousSwappedIndexes\<close>.
\<close>

function binary_shift ::
  "nat \<Rightarrow> nat \<Rightarrow> nat list \<Rightarrow> nat sorting \<Rightarrow> nat list \<times> nat sorting" where
  "binary_shift insertIndex k1 previous s =
     (if k1 > insertIndex then
        (let s = store k1 (arr s ! (k1 - 1)) s;
             s = count_swaps 1 s;
             previous = [k1 - 1, k1]
         in binary_shift insertIndex (k1 - 1) previous s)
      else (previous, s))"
  by pat_completeness auto
termination
  by (relation "measure (\<lambda>(insertIndex, k1, previous, s). k1)") auto

declare binary_shift.simps [simp del]

text \<open>
  The outer loop \<open>for (let i = 1; i < n; i++)\<close>: \<open>right = j = i - 1\<close> is \<open>right1 = i\<close>, and
  the shift starts at \<open>k = j\<close>, that is \<open>k1 = i\<close>.
\<close>

function binary_outer ::
  "bool \<Rightarrow> nat \<Rightarrow> nat \<Rightarrow> nat list \<Rightarrow> nat sorting \<Rightarrow> nat sorting" where
  "binary_outer yieldCompare n i previous s =
     (if i < n then
        (let key = arr s ! i in
         case binary_search yieldCompare key i 0 i i previous s of
           (insertIndex, s) \<Rightarrow>
             (case binary_shift insertIndex i previous s of
                (previous, s) \<Rightarrow>
                  (let s = store insertIndex key s;
                       s = yield (Some previous) None s
                   in binary_outer yieldCompare n (i + 1) previous s)))
      else s)"
  by pat_completeness auto
termination
  by (relation "measure (\<lambda>(yc, n, i, previous, s). n - i)") auto

declare binary_outer.simps [simp del]

definition binaryInsertionSort :: "nat list \<Rightarrow> bool \<Rightarrow> nat sorting" where
  "binaryInsertionSort a yieldCompare =
     (let s = binary_outer yieldCompare (length a) 1 [] (initial a)
      in yield None None s)"

section \<open>Quick sort\<close>

text \<open>
  The scan loop of \<open>partition\<close>, \<open>for (let j = low; j < high; j++)\<close>.  \<open>i\<close> starts at
  \<open>low - 1\<close>, which is \<open>-1\<close> for \<open>low = 0\<close>; the model carries \<open>i1 = i + 1\<close>, so \<open>i++\<close>
  followed by the exchange of \<open>arr[i]\<close> and \<open>arr[j]\<close> is the exchange at \<open>i1\<close> followed by
  \<open>i1 + 1\<close>.  It returns \<open>i1\<close>.
\<close>

function partition_loop ::
  "bool \<Rightarrow> nat \<Rightarrow> nat \<Rightarrow> nat \<Rightarrow> nat \<Rightarrow> nat sorting \<Rightarrow> nat \<times> nat sorting" where
  "partition_loop yieldCompare pivot high j i1 s =
     (if j < high then
        (let s = count_comparison s;
             s = yield_if yieldCompare (Some []) (Some [j, high]) s
         in if arr s ! j \<le> pivot then
              (let s = exchange i1 j s;
                   s = count_swaps 1 s;
                   s = yield_if yieldCompare (Some [i1, j]) (Some []) s
               in partition_loop yieldCompare pivot high (j + 1) (i1 + 1) s)
            else partition_loop yieldCompare pivot high (j + 1) i1 s)
      else (i1, s))"
  by pat_completeness auto
termination
  by (relation "measure (\<lambda>(yc, pivot, high, j, i1, s). high - j)") auto

declare partition_loop.simps [simp del]

text \<open>\<open>partition\<close> returns the pivot position \<open>i + 1\<close>, which is \<open>i1\<close>.\<close>

definition partition :: "bool \<Rightarrow> nat \<Rightarrow> nat \<Rightarrow> nat sorting \<Rightarrow> nat \<times> nat sorting" where
  "partition yieldCompare low high s =
     (let pivot = arr s ! high;
          (i1, s) = partition_loop yieldCompare pivot high low low s;
          s = exchange i1 high s;
          s = count_swaps 1 s;
          s = yield_if yieldCompare (Some [i1, high]) (Some []) s
      in (i1, s))"

lemma partition_loop_bounds:
  "i1 \<le> fst (partition_loop yc pivot high j i1 s)
   \<and> fst (partition_loop yc pivot high j i1 s) + j \<le> i1 + max j high"
proof (induction yc pivot high j i1 s rule: partition_loop.induct)
  case (1 yc pivot high j i1 s)
  show ?case
  proof (cases "j < high")
    case False
    then show ?thesis by (subst (1 2) partition_loop.simps) simp
  next
    case True
    let ?s = "yield_if yc (Some []) (Some [j, high]) (count_comparison s)"
    show ?thesis
    proof (cases "arr ?s ! j \<le> pivot")
      case le: True
      from "1.IH"(1) [OF True refl refl le refl refl refl] True le show ?thesis
        by (subst (1 2) partition_loop.simps) (simp add: Let_def)
    next
      case gt: False
      from "1.IH"(2) [OF True refl refl gt] True gt show ?thesis
        by (subst (1 2) partition_loop.simps) (simp add: Let_def)
    qed
  qed
qed

lemma partition_bounds:
  assumes "(p, s') = partition yc low high s" and "low < high"
  shows "low \<le> p \<and> p \<le> high"
proof -
  have "p = fst (partition_loop yc (arr s ! high) high low low s)"
    using assms(1) by (simp add: partition_def Let_def split: prod.splits)
  with partition_loop_bounds [of low yc "arr s ! high" high low s] assms(2)
  show ?thesis by simp
qed

text \<open>
  \<open>quickSortRecursive\<close>.  For \<open>pi = 0\<close> (\<open>pi'\<close> in the model) the source calls itself with \<open>high = -1\<close>; there
  \<open>low = 0\<close> and the test \<open>low < high\<close> fails for \<open>-1\<close> as it does for \<open>0\<close>.
\<close>

function quickSortRecursive :: "bool \<Rightarrow> nat \<Rightarrow> nat \<Rightarrow> nat sorting \<Rightarrow> nat sorting" where
  "quickSortRecursive yieldCompare low high s =
     (let s = (if low < high then
                 (case partition yieldCompare low high s of
                    (pi', s) \<Rightarrow>
                      (let s = quickSortRecursive yieldCompare low (pi' - 1) s;
                           s = quickSortRecursive yieldCompare (pi' + 1) high s
                       in s))
               else s)
      in yield_if yieldCompare (Some []) (Some []) s)"
  by pat_completeness auto
termination
  by (relation "measure (\<lambda>(yc, low, high, s). high - low)")
    (auto dest: partition_bounds)

declare quickSortRecursive.simps [simp del]

definition quickSort :: "nat list \<Rightarrow> bool \<Rightarrow> nat sorting" where
  "quickSort a yieldCompare =
     quickSortRecursive yieldCompare 0 (length a - 1) (initial a)"

section \<open>Cocktail shaker sort\<close>

text \<open>The forward pass \<open>for (let i = start; i < end; i++)\<close>; it returns \<open>swapped\<close>.\<close>

function cocktail_forward ::
  "bool \<Rightarrow> nat \<Rightarrow> nat \<Rightarrow> bool \<Rightarrow> nat sorting \<Rightarrow> bool \<times> nat sorting" where
  "cocktail_forward yieldCompare end' i swapped s =
     (if i < end' then
        (let s = count_comparison s;
             s = yield_if yieldCompare (Some []) (Some [i, i + 1]) s
         in if arr s ! i > arr s ! (i + 1) then
              (let s = exchange i (i + 1) s;
                   s = count_swaps 1 s;
                   s = yield_if yieldCompare (Some [i, i + 1]) (Some []) s
               in cocktail_forward yieldCompare end' (i + 1) True s)
            else cocktail_forward yieldCompare end' (i + 1) swapped s)
      else (swapped, s))"
  by pat_completeness auto
termination
  by (relation "measure (\<lambda>(yc, end', i, swapped, s). end' - i)") auto

declare cocktail_forward.simps [simp del]

text \<open>The backward pass \<open>for (let i = end; i > start; i--)\<close>.\<close>

function cocktail_backward ::
  "bool \<Rightarrow> nat \<Rightarrow> nat \<Rightarrow> bool \<Rightarrow> nat sorting \<Rightarrow> bool \<times> nat sorting" where
  "cocktail_backward yieldCompare start i swapped s =
     (if i > start then
        (let s = count_comparison s;
             s = yield_if yieldCompare (Some []) (Some [i - 1, i]) s
         in if arr s ! (i - 1) > arr s ! i then
              (let s = exchange (i - 1) i s;
                   s = count_swaps 1 s;
                   s = yield_if yieldCompare (Some [i - 1, i]) (Some []) s
               in cocktail_backward yieldCompare start (i - 1) True s)
            else cocktail_backward yieldCompare start (i - 1) swapped s)
      else (swapped, s))"
  by pat_completeness auto
termination
  by (relation "measure (\<lambda>(yc, start, i, swapped, s). i)") auto

declare cocktail_backward.simps [simp del]

text \<open>The loop \<open>while (start < end)\<close> with its two \<open>break\<close>s.\<close>

function cocktail_while :: "bool \<Rightarrow> nat \<Rightarrow> nat \<Rightarrow> nat sorting \<Rightarrow> nat sorting" where
  "cocktail_while yieldCompare start end' s =
     (if start < end' then
        (case cocktail_forward yieldCompare end' start False s of
           (swapped, s) \<Rightarrow>
             if \<not> swapped then s
             else
               (let end' = end' - 1 in
                case cocktail_backward yieldCompare start end' False s of
                  (swapped, s) \<Rightarrow>
                    if \<not> swapped then s
                    else cocktail_while yieldCompare (start + 1) end' s))
      else s)"
  by pat_completeness auto
termination
  by (relation "measure (\<lambda>(yc, start, end', s). end' - start)") auto

declare cocktail_while.simps [simp del]

definition cocktailShakerSort :: "nat list \<Rightarrow> bool \<Rightarrow> nat sorting" where
  "cocktailShakerSort a yieldCompare =
     (let s = cocktail_while yieldCompare 0 (length a - 1) (initial a)
      in yield_if yieldCompare (Some []) (Some []) s)"

section \<open>Gnome sort\<close>

text \<open>
  Gnome sort reads \<open>arr[index]\<close> right after \<open>index++\<close> without testing the bound, so on a
  one-element array it reads and then writes position 1.  Its array is therefore modelled
  as a JavaScript array whose elements may be \<open>undefined\<close> (\<open>None\<close>): reading past the end
  gives \<open>undefined\<close>, \<open>>=\<close> with an \<open>undefined\<close> operand is false, and writing at the
  length appends.
\<close>

definition js_get :: "'a option list \<Rightarrow> nat \<Rightarrow> 'a option" where
  "js_get xs i = (if i < length xs then xs ! i else None)"

definition js_set :: "'a option list \<Rightarrow> nat \<Rightarrow> 'a option \<Rightarrow> 'a option list" where
  "js_set xs i v =
     (if i < length xs then xs[i := v] else xs @ replicate (i - length xs) None @ [v])"

definition js_ge :: "nat option \<Rightarrow> nat option \<Rightarrow> bool" where
  "js_ge x y = (case x of None \<Rightarrow> False | Some a \<Rightarrow> (case y of None \<Rightarrow> False | Some b \<Rightarrow> a \<ge> b))"

text \<open>\<open>[arr[i], arr[j]] = [arr[j], arr[i]]\<close>: both reads, then the write at \<open>i\<close>, then at \<open>j\<close>.\<close>

definition js_exchange :: "nat \<Rightarrow> nat \<Rightarrow> 'a option sorting \<Rightarrow> 'a option sorting" where
  "js_exchange i j s =
     (let x = js_get (arr s) j; y = js_get (arr s) i
      in s\<lparr>arr := js_set (js_set (arr s) i x) j y\<rparr>)"

text \<open>The loop \<open>while (index < arr.length)\<close>; not returning is the value \<open>None\<close>.\<close>

partial_function (option) gnome_loop ::
  "bool \<Rightarrow> nat \<Rightarrow> nat option sorting \<Rightarrow> nat option sorting option" where
  "gnome_loop yieldCompare index s =
     (if index < length (arr s) then
        (let index = (if index = 0 then index + 1 else index);
             s = count_comparison s;
             s = yield_if yieldCompare (Some []) (Some [index - 1, index]) s
         in if js_ge (js_get (arr s) index) (js_get (arr s) (index - 1)) then
              gnome_loop yieldCompare (index + 1) s
            else
              (let s = js_exchange index (index - 1) s;
                   s = count_swaps 1 s;
                   s = yield_if yieldCompare (Some [index - 1, index]) (Some []) s
               in gnome_loop yieldCompare (index - 1) s))
      else Some s)"

declare gnome_loop.simps [code]

definition gnomeSort :: "nat list \<Rightarrow> bool \<Rightarrow> nat option sorting option" where
  "gnomeSort a yieldCompare =
     map_option (yield_if yieldCompare (Some []) (Some []))
       (gnome_loop yieldCompare 0 (initial (map Some a)))"

section \<open>Comb sort\<close>

text \<open>
  Exchanging an out-of-order pair makes the array smaller in the lexicographic order,
  which is well-founded on arrays of one length.  The loops that run until a pass makes
  no exchange terminate for this reason.
\<close>

lemma swap_lenlex:
  assumes "i < j" and "j < length xs" and "(xs ! j, xs ! i) \<in> r"
  shows "(swap xs i j, xs) \<in> lenlex r"
proof -
  have i: "i < length xs" using assms by simp
  have "swap xs i j = (xs[j := xs ! i])[i := xs ! j]"
    using assms by (simp add: swap_def list_update_swap [of i j])
  also have "\<dots> = take i (xs[j := xs ! i]) @ (xs ! j) # drop (Suc i) (xs[j := xs ! i])"
    using i by (rule_tac upd_conv_take_nth_drop) simp
  also have "take i (xs[j := xs ! i]) = take i xs"
    using assms by simp
  finally have l: "swap xs i j = take i xs @ (xs ! j) # drop (Suc i) (xs[j := xs ! i])" .
  have x: "xs = take i xs @ (xs ! i) # drop (Suc i) xs"
    using i by (simp add: id_take_nth_drop [symmetric])
  have "(take i xs @ (xs ! j) # drop (Suc i) (xs[j := xs ! i]),
         take i xs @ (xs ! i) # drop (Suc i) xs) \<in> lex r"
    using assms by (intro lex_append_leftI) simp
  with l x have "(swap xs i j, xs) \<in> lex r" by metis
  then show ?thesis by (simp add: lenlex_conv swap_def)
qed

definition smaller :: "(nat list \<times> nat list) set" where
  "smaller = lenlex less_than"

lemma wf_smaller: "wf smaller"
  by (simp add: smaller_def wf_lenlex)

lemma trans_smaller: "trans smaller"
  unfolding smaller_def by (rule lenlex_transI) simp

lemma swap_smaller:
  "i < j \<Longrightarrow> j < length xs \<Longrightarrow> xs ! j < xs ! i \<Longrightarrow> (swap xs i j, xs) \<in> smaller"
  unfolding smaller_def by (rule swap_lenlex) simp_all

lemma length_swap [simp]: "length (swap xs i j) = length xs"
  by (simp add: swap_def)

lemma length_exchange [simp]: "length (arr (exchange i j s)) = length (arr s)"
  by (simp add: exchange_def swap_def)

lemma length_store [simp]: "length (arr (store i v s)) = length (arr s)"
  by (simp add: store_def)

lemma arr_count_comparison [simp]: "arr (count_comparison s) = arr s"
  by (simp add: count_comparison_def)

lemma arr_count_swaps [simp]: "arr (count_swaps k s) = arr s"
  by (simp add: count_swaps_def)

lemma arr_yield [simp]: "arr (yield sw cmp s) = arr s"
  by (simp add: yield_def)

lemma arr_yield_if [simp]: "arr (yield_if yc sw cmp s) = arr s"
  by (simp add: yield_if_def)

lemma arr_exchange [simp]: "arr (exchange i j s) = swap (arr s) i j"
  by (simp add: exchange_def)

lemma arr_store [simp]: "arr (store i v s) = (arr s)[i := v]"
  by (simp add: store_def)

text \<open>The pass \<open>while (i + gap < arr.length)\<close>; it returns the flag \<open>sorted\<close>.\<close>

function comb_pass ::
  "bool \<Rightarrow> nat \<Rightarrow> nat \<Rightarrow> bool \<Rightarrow> nat sorting \<Rightarrow> bool \<times> nat sorting" where
  "comb_pass yieldCompare gap i sorted' s =
     (if i + gap < length (arr s) then
        (let s = count_comparison s;
             s = yield_if yieldCompare (Some []) (Some [i, i + gap]) s
         in if arr s ! i > arr s ! (i + gap) then
              (let s = exchange i (i + gap) s;
                   s = count_swaps 1 s;
                   s = yield_if yieldCompare (Some [i, i + gap]) (Some []) s
               in comb_pass yieldCompare gap (i + 1) False s)
            else comb_pass yieldCompare gap (i + 1) sorted' s)
      else (sorted', s))"
  by pat_completeness auto
termination
  by (relation "measure (\<lambda>(yc, gap, i, sorted', s). length (arr s) - i)") auto

declare comb_pass.simps [simp del]

lemma comb_pass_smaller:
  "0 < gap \<Longrightarrow>
     (arr (snd (comb_pass yc gap i sorted' s)) = arr s
        \<and> fst (comb_pass yc gap i sorted' s) = sorted')
     \<or> ((arr (snd (comb_pass yc gap i sorted' s)), arr s) \<in> smaller
        \<and> \<not> fst (comb_pass yc gap i sorted' s))"
proof (induction yc gap i sorted' s rule: comb_pass.induct)
  case (1 yc gap i sorted' s)
  show ?case
  proof (cases "i + gap < length (arr s)")
    case False
    then show ?thesis by (subst (1 2 3 4) comb_pass.simps) simp
  next
    case True
    let ?s = "yield_if yc (Some []) (Some [i, i + gap]) (count_comparison s)"
    show ?thesis
    proof (cases "arr ?s ! i > arr ?s ! (i + gap)")
      case gt: True
      let ?t = "yield_if yc (Some [i, i + gap]) (Some []) (count_swaps 1 (exchange i (i + gap) ?s))"
      have step: "(arr ?t, arr s) \<in> smaller"
        using gt True "1.prems" by (simp add: swap_smaller)
      have unf: "comb_pass yc gap i sorted' s = comb_pass yc gap (i + 1) False ?t"
        using True gt by (subst comb_pass.simps) (simp add: Let_def)
      from "1.IH"(1) [OF True refl refl gt refl refl refl "1.prems"] step show ?thesis
        unfolding unf using trans_smaller by (auto dest: transD)
    next
      case le: False
      have unf: "comb_pass yc gap i sorted' s = comb_pass yc gap (i + 1) sorted' ?s"
        using True le by (subst comb_pass.simps) (simp add: Let_def)
      from "1.IH"(2) [OF True refl refl le "1.prems"] show ?thesis
        unfolding unf by simp
    qed
  qed
qed

text \<open>
  The loop \<open>while (!sorted)\<close>.  \<open>Math.floor(gap / 1.3)\<close> is \<open>(gap * 10) div 13\<close>: the double
  nearest to 1.3 exceeds 1.3 by less than one part in \<open>10^16\<close>, so for array lengths
  below \<open>2^50\<close> the rounded quotient has the floor of the exact one (a quotient that is
  exactly an integer rounds to that integer).
\<close>

function comb_while :: "bool \<Rightarrow> nat \<Rightarrow> bool \<Rightarrow> nat sorting \<Rightarrow> nat sorting" where
  "comb_while yieldCompare gap sorted' s =
     (if \<not> sorted' then
        (let gap = (gap * 10) div 13;
             (gap, sorted') = (if gap \<le> 1 then (1, True) else (gap, False))
         in case comb_pass yieldCompare gap 0 sorted' s of
              (sorted', s) \<Rightarrow> comb_while yieldCompare gap sorted' s)
      else s)"
  by pat_completeness auto
termination
proof (relation "inv_image (less_than <*lex*> less_than <*lex*> smaller)
    (\<lambda>(yc, gap, sorted', s). (if sorted' then 0 else 1 :: nat, gap - 1, arr s))", goal_cases)
  case 1
  show ?case by (intro wf_inv_image wf_lex_prod wf_less_than wf_smaller)
next
  case (2 yc gap sorted0 s gap1 p gap2 sorted2 sorted3 s3)
  note cp = 2(5) [symmetric]
  have g: "0 < gap2" using 2(2-4) by (auto split: if_splits)
  show ?case
  proof (cases sorted3)
    case True
    with 2(1) show ?thesis by (simp add: cp)
  next
    case False
    show ?thesis
    proof (cases "gap1 \<le> 1")
      case big: False
      with 2(2-4) have "gap2 = (gap * 10) div 13" by simp
      with big 2(2) have "gap2 - 1 < gap - 1" by simp
      with False 2(1) show ?thesis by (simp add: cp)
    next
      case small: True
      with 2(2-4) have e: "gap2 = 1" "sorted2" by simp_all
      have "(arr s3 = arr s \<and> sorted3 = sorted2) \<or> ((arr s3, arr s) \<in> smaller \<and> \<not> sorted3)"
        using comb_pass_smaller [OF g, of yc 0 sorted2 s] unfolding cp by simp
      with False e have "(arr s3, arr s) \<in> smaller" by auto
      with False 2(1) e show ?thesis by (cases "gap - 1") (auto simp: cp)
    qed
  qed
qed

declare comb_while.simps [simp del]

definition combSort :: "nat list \<Rightarrow> bool \<Rightarrow> nat sorting" where
  "combSort a yieldCompare =
     (let s = comb_while yieldCompare (length a) False (initial a)
      in yield_if yieldCompare (Some []) (Some []) s)"

section \<open>Shell sort\<close>

text \<open>
  The loop \<open>while (j >= gap && arr[j - gap] > temp)\<close>; it returns \<open>j\<close>.  The enclosing
  loop runs only while \<open>gap > 0\<close>; the model repeats that test here so that the function
  is total.
\<close>

function shell_while ::
  "bool \<Rightarrow> nat \<Rightarrow> nat \<Rightarrow> nat \<Rightarrow> nat sorting \<Rightarrow> nat \<times> nat sorting" where
  "shell_while yieldCompare gap temp j s =
     (if 0 < gap \<and> j \<ge> gap \<and> arr s ! (j - gap) > temp then
        (let s = count_comparison s;
             s = yield_if yieldCompare (Some []) (Some [j, j - gap]) s;
             s = store j (arr s ! (j - gap)) s;
             s = count_swaps 1 s;
             s = yield_if yieldCompare (Some [j, j - gap]) (Some []) s
         in shell_while yieldCompare gap temp (j - gap) s)
      else (j, s))"
  by pat_completeness auto
termination
  by (relation "measure (\<lambda>(yc, gap, temp, j, s). j)") auto

declare shell_while.simps [simp del]

text \<open>The loop \<open>for (let i = gap; i < n; i++)\<close>.\<close>

function shell_for :: "bool \<Rightarrow> nat \<Rightarrow> nat \<Rightarrow> nat \<Rightarrow> nat sorting \<Rightarrow> nat sorting" where
  "shell_for yieldCompare n gap i s =
     (if i < n then
        (let temp = arr s ! i in
         case shell_while yieldCompare gap temp i s of
           (j, s) \<Rightarrow>
             (let s = store j temp s;
                  s = (if yieldCompare \<and> j \<noteq> i then yield (Some [j]) (Some []) s else s)
              in shell_for yieldCompare n gap (i + 1) s))
      else s)"
  by pat_completeness auto
termination
  by (relation "measure (\<lambda>(yc, n, gap, i, s). n - i)") auto

declare shell_for.simps [simp del]

text \<open>The loop \<open>while (gap > 0)\<close>, ending each round with \<open>gap = Math.floor(gap / 2)\<close>.\<close>

function shell_gaps :: "bool \<Rightarrow> nat \<Rightarrow> nat \<Rightarrow> nat sorting \<Rightarrow> nat sorting" where
  "shell_gaps yieldCompare n gap s =
     (if gap > 0 then shell_gaps yieldCompare n (gap div 2) (shell_for yieldCompare n gap gap s)
      else s)"
  by pat_completeness auto
termination
  by (relation "measure (\<lambda>(yc, n, gap, s). gap)") auto

declare shell_gaps.simps [simp del]

definition shellSort :: "nat list \<Rightarrow> bool \<Rightarrow> nat sorting" where
  "shellSort a yieldCompare =
     (let s = shell_gaps yieldCompare (length a) (length a div 2) (initial a)
      in yield_if yieldCompare (Some []) (Some []) s)"

section \<open>Heap sort\<close>

text \<open>\<open>heapify(arr, n, i)\<close>, the recursive sift-down inside \<open>heapSort\<close>.\<close>

function heapify :: "bool \<Rightarrow> nat \<Rightarrow> nat \<Rightarrow> nat sorting \<Rightarrow> nat sorting" where
  "heapify yieldCompare n i s =
     (let largest = i;
          left = 2 * i + 1;
          right = 2 * i + 2;
          largest = (if left < n \<and> arr s ! left > arr s ! largest then left else largest);
          largest = (if right < n \<and> arr s ! right > arr s ! largest then right else largest)
      in if largest \<noteq> i then
           (let s = count_comparison s;
                s = yield_if yieldCompare (Some []) (Some [i, largest]) s;
                s = exchange i largest s;
                s = count_swaps 1 s;
                s = yield_if yieldCompare (Some [i, largest]) (Some []) s
            in heapify yieldCompare n largest s)
         else s)"
  by pat_completeness auto
termination
  by (relation "measure (\<lambda>(yc, n, i, s). n - i)") (auto split: if_splits)

declare heapify.simps [simp del]

text \<open>
  The build loop \<open>for (let i = Math.floor(n / 2) - 1; i >= 0; i--)\<close>, with \<open>i1 = i + 1\<close>:
  it starts at \<open>n div 2\<close> and runs while \<open>i1 > 0\<close>.
\<close>

function heap_build :: "bool \<Rightarrow> nat \<Rightarrow> nat \<Rightarrow> nat sorting \<Rightarrow> nat sorting" where
  "heap_build yieldCompare n i1 s =
     (if i1 > 0 then heap_build yieldCompare n (i1 - 1) (heapify yieldCompare n (i1 - 1) s)
      else s)"
  by pat_completeness auto
termination
  by (relation "measure (\<lambda>(yc, n, i1, s). i1)") auto

declare heap_build.simps [simp del]

text \<open>The extraction loop \<open>for (let i = n - 1; i > 0; i--)\<close>.\<close>

function heap_extract :: "bool \<Rightarrow> nat \<Rightarrow> nat sorting \<Rightarrow> nat sorting" where
  "heap_extract yieldCompare i s =
     (if i > 0 then
        (let s = exchange 0 i s;
             s = count_swaps 1 s;
             s = yield_if yieldCompare (Some [0, i]) (Some []) s;
             s = heapify yieldCompare i 0 s
         in heap_extract yieldCompare (i - 1) s)
      else s)"
  by pat_completeness auto
termination
  by (relation "measure (\<lambda>(yc, i, s). i)") auto

declare heap_extract.simps [simp del]

definition heapSort :: "nat list \<Rightarrow> bool \<Rightarrow> nat sorting" where
  "heapSort a yieldCompare =
     (let n = length a;
          s = heap_build yieldCompare n (n div 2) (initial a);
          s = heap_extract yieldCompare (n - 1) s
      in yield_if yieldCompare (Some []) (Some []) s)"

section \<open>Odd-even sort\<close>

text \<open>
  One of the two passes \<open>for (let i = 1; i < n - 1; i += 2)\<close> and
  \<open>for (let i = 0; i < n - 1; i += 2)\<close>; it returns the flag \<open>sorted\<close>.  \<open>n\<close> is
  \<open>arr.length\<close>, which no step changes; the model reads the length of the array.
\<close>

function oddEven_pass ::
  "bool \<Rightarrow> nat \<Rightarrow> bool \<Rightarrow> nat sorting \<Rightarrow> bool \<times> nat sorting" where
  "oddEven_pass yieldCompare i sorted' s =
     (if i + 1 < length (arr s) then
        (let s = count_comparison s;
             s = yield_if yieldCompare (Some []) (Some [i, i + 1]) s
         in if arr s ! i > arr s ! (i + 1) then
              (let s = exchange i (i + 1) s;
                   s = count_swaps 1 s;
                   s = yield_if yieldCompare (Some [i, i + 1]) (Some []) s
               in oddEven_pass yieldCompare (i + 2) False s)
            else oddEven_pass yieldCompare (i + 2) sorted' s)
      else (sorted', s))"
  by pat_completeness auto
termination
  by (relation "measure (\<lambda>(yc, i, sorted', s). length (arr s) - i)") auto

declare oddEven_pass.simps [simp del]

lemma oddEven_pass_smaller:
  "(arr (snd (oddEven_pass yc i sorted' s)) = arr s
        \<and> fst (oddEven_pass yc i sorted' s) = sorted')
     \<or> ((arr (snd (oddEven_pass yc i sorted' s)), arr s) \<in> smaller
        \<and> \<not> fst (oddEven_pass yc i sorted' s))"
proof (induction yc i sorted' s rule: oddEven_pass.induct)
  case (1 yc i sorted' s)
  show ?case
  proof (cases "i + 1 < length (arr s)")
    case False
    then show ?thesis by (subst (1 2 3 4) oddEven_pass.simps) simp
  next
    case True
    let ?s = "yield_if yc (Some []) (Some [i, i + 1]) (count_comparison s)"
    show ?thesis
    proof (cases "arr ?s ! i > arr ?s ! (i + 1)")
      case gt: True
      let ?t = "yield_if yc (Some [i, i + 1]) (Some []) (count_swaps 1 (exchange i (i + 1) ?s))"
      have step: "(arr ?t, arr s) \<in> smaller"
        using gt True by (simp add: swap_smaller)
      have unf: "oddEven_pass yc i sorted' s = oddEven_pass yc (i + 2) False ?t"
        using True gt by (subst oddEven_pass.simps) (simp add: Let_def)
      from "1.IH"(1) [OF True refl refl gt refl refl refl] step show ?thesis
        unfolding unf using trans_smaller by (auto dest: transD)
    next
      case le: False
      have unf: "oddEven_pass yc i sorted' s = oddEven_pass yc (i + 2) sorted' ?s"
        using True le by (subst oddEven_pass.simps) (simp add: Let_def)
      from "1.IH"(2) [OF True refl refl le] show ?thesis
        unfolding unf by simp
    qed
  qed
qed

text \<open>The loop \<open>while (!sorted)\<close>: \<open>sorted = true\<close>, the odd pass, the even pass.\<close>

function oddEven_while :: "bool \<Rightarrow> bool \<Rightarrow> nat sorting \<Rightarrow> nat sorting" where
  "oddEven_while yieldCompare sorted' s =
     (if \<not> sorted' then
        (case oddEven_pass yieldCompare 1 True s of
           (sorted', s) \<Rightarrow>
             (case oddEven_pass yieldCompare 0 sorted' s of
                (sorted', s) \<Rightarrow> oddEven_while yieldCompare sorted' s))
      else s)"
  by pat_completeness auto
termination
proof (relation "inv_image (less_than <*lex*> smaller)
    (\<lambda>(yc, sorted', s). (if sorted' then 0 else 1 :: nat, arr s))", goal_cases)
  case 1
  show ?case by (intro wf_inv_image wf_lex_prod wf_less_than wf_smaller)
next
  case (2 yc sorted0 s sorted1 s1 sorted2 s2)
  note p1 = 2(2) [symmetric] and p2 = 2(3) [symmetric]
  have a: "(arr s1 = arr s \<and> sorted1 = True) \<or> ((arr s1, arr s) \<in> smaller \<and> \<not> sorted1)"
    using oddEven_pass_smaller [of yc 1 True s] unfolding p1 by simp
  have b: "(arr s2 = arr s1 \<and> sorted2 = sorted1) \<or> ((arr s2, arr s1) \<in> smaller \<and> \<not> sorted2)"
    using oddEven_pass_smaller [of yc 0 sorted1 s1] unfolding p2 by simp
  show ?case
  proof (cases sorted2)
    case True
    with 2(1) show ?thesis by simp
  next
    case False
    with a b have "(arr s2, arr s) \<in> smaller"
      using trans_smaller by (auto dest: transD)
    with False 2(1) show ?thesis by simp
  qed
qed

declare oddEven_while.simps [simp del]

definition oddEvenSort :: "nat list \<Rightarrow> bool \<Rightarrow> nat sorting" where
  "oddEvenSort a yieldCompare =
     (let s = oddEven_while yieldCompare False (initial a)
      in yield_if yieldCompare (Some []) (Some []) s)"

section \<open>Bitonic sort\<close>

text \<open>
  The loop of \<open>bitonicMerge\<close>, \<open>for (let i = low; i < low + mid; i++)\<close>, with
  \<open>bound = low + mid\<close>.  The exchange test is \<open>(arr[i] > arr[i + mid]) === up\<close>.
\<close>

function bitonic_loop ::
  "bool \<Rightarrow> bool \<Rightarrow> nat \<Rightarrow> nat \<Rightarrow> nat \<Rightarrow> nat sorting \<Rightarrow> nat sorting" where
  "bitonic_loop yieldCompare up mid bound i s =
     (if i < bound then
        (let s = count_comparison s;
             s = yield_if yieldCompare (Some []) (Some [i, i + mid]) s
         in if (arr s ! i > arr s ! (i + mid)) = up then
              (let s = exchange i (i + mid) s;
                   s = count_swaps 1 s;
                   s = yield_if yieldCompare (Some [i, i + mid]) (Some []) s
               in bitonic_loop yieldCompare up mid bound (i + 1) s)
            else bitonic_loop yieldCompare up mid bound (i + 1) s)
      else s)"
  by pat_completeness auto
termination
  by (relation "measure (\<lambda>(yc, up, mid, bound, i, s). bound - i)") auto

declare bitonic_loop.simps [simp del]

function bitonicMerge :: "bool \<Rightarrow> nat \<Rightarrow> nat \<Rightarrow> bool \<Rightarrow> nat sorting \<Rightarrow> nat sorting" where
  "bitonicMerge yieldCompare low cnt up s =
     (if cnt \<le> 1 then s
      else
        (let mid = cnt div 2;
             s = bitonic_loop yieldCompare up mid (low + mid) low s;
             s = bitonicMerge yieldCompare low mid up s;
             s = bitonicMerge yieldCompare (low + mid) mid up s
         in s))"
  by pat_completeness auto
termination
  by (relation "measure (\<lambda>(yc, low, cnt, up, s). cnt)") auto

declare bitonicMerge.simps [simp del]

function bitonicSortRec :: "bool \<Rightarrow> nat \<Rightarrow> nat \<Rightarrow> bool \<Rightarrow> nat sorting \<Rightarrow> nat sorting" where
  "bitonicSortRec yieldCompare low cnt up s =
     (if cnt \<le> 1 then s
      else
        (let mid = cnt div 2;
             s = bitonicSortRec yieldCompare low mid True s;
             s = bitonicSortRec yieldCompare (low + mid) mid False s
         in bitonicMerge yieldCompare low cnt up s))"
  by pat_completeness auto
termination
  by (relation "measure (\<lambda>(yc, low, cnt, up, s). cnt)") auto

declare bitonicSortRec.simps [simp del]

text \<open>
  \<open>bitonicSort(arr, up = true, yieldCompare = true)\<close>: the direction comes before the
  flag in the parameter list.
\<close>

definition bitonicSort :: "nat list \<Rightarrow> bool \<Rightarrow> bool \<Rightarrow> nat sorting" where
  "bitonicSort a up yieldCompare =
     (let s = bitonicSortRec yieldCompare 0 (length a) up (initial a)
      in yield_if yieldCompare None None s)"

section \<open>Cycle sort\<close>

text \<open>
  The counting loop \<open>for (let i = cycleStart + 1; i < n; i++)\<close>, which occurs twice in
  the source with the same body; it returns \<open>pos\<close>.
\<close>

function cycle_count ::
  "bool \<Rightarrow> nat \<Rightarrow> nat \<Rightarrow> nat \<Rightarrow> nat \<Rightarrow> nat sorting \<Rightarrow> nat \<times> nat sorting" where
  "cycle_count yieldCompare n item i pos s =
     (if i < n then
        (let s = count_comparison s;
             pos = (if arr s ! i < item then pos + 1 else pos);
             s = yield_if yieldCompare (Some []) (Some [i]) s
         in cycle_count yieldCompare n item (i + 1) pos s)
      else (pos, s))"
  by pat_completeness auto
termination
  by (relation "measure (\<lambda>(yc, n, item, i, pos, s). n - i)") auto

declare cycle_count.simps [simp del]

text \<open>
  The loop \<open>while (item === arr[pos]) pos++\<close>.  Past the end of the array \<open>arr[pos]\<close> is
  \<open>undefined\<close>, which is not strictly equal to a number, so the loop stops there.
\<close>

function cycle_skip :: "nat \<Rightarrow> nat \<Rightarrow> nat list \<Rightarrow> nat" where
  "cycle_skip item pos a =
     (if pos < length a \<and> item = a ! pos then cycle_skip item (pos + 1) a else pos)"
  by pat_completeness auto
termination
  by (relation "measure (\<lambda>(item, pos, a). length a - pos)") auto

declare cycle_skip.simps [simp del]

text \<open>
  \<open>[arr[pos], item] = [item, arr[pos]]\<close> with the counter and the step that follow it, for
  a position inside the array; it returns the new \<open>item\<close>.
\<close>

definition cycle_put :: "bool \<Rightarrow> nat \<Rightarrow> nat \<Rightarrow> nat sorting \<Rightarrow> nat \<times> nat sorting" where
  "cycle_put yieldCompare item pos s =
     (let old = arr s ! pos;
          s = store pos item s;
          s = count_swaps 1 s;
          s = yield_if yieldCompare (Some [pos]) (Some []) s
      in (old, s))"

text \<open>
  The loop \<open>while (pos !== cycleStart)\<close> that rotates the rest of a cycle; not returning
  is the value \<open>None\<close>.  After the skip loop \<open>item !== arr[pos]\<close> holds also when \<open>pos\<close> is
  past the end.
\<close>

partial_function (option) cycle_rotate ::
  "bool \<Rightarrow> nat \<Rightarrow> nat \<Rightarrow> nat \<Rightarrow> nat \<Rightarrow> nat sorting \<Rightarrow> nat sorting option" where
  "cycle_rotate yieldCompare n cycleStart item pos s =
     (if pos \<noteq> cycleStart then
        (case cycle_count yieldCompare n item (cycleStart + 1) cycleStart s of
           (pos, s) \<Rightarrow>
             (let pos = cycle_skip item pos (arr s) in
              if \<not> (pos < length (arr s) \<and> item = arr s ! pos) then
                (case cycle_put yieldCompare item pos s of
                   (item, s) \<Rightarrow> cycle_rotate yieldCompare n cycleStart item pos s)
              else cycle_rotate yieldCompare n cycleStart item pos s))
      else Some s)"

text \<open>The outer loop \<open>for (let cycleStart = 0; cycleStart < n - 1; cycleStart++)\<close>.\<close>

partial_function (option) cycle_outer ::
  "bool \<Rightarrow> nat \<Rightarrow> nat \<Rightarrow> nat sorting \<Rightarrow> nat sorting option" where
  "cycle_outer yieldCompare n cycleStart s =
     (if cycleStart + 1 < n then
        (let item = arr s ! cycleStart in
         case cycle_count yieldCompare n item (cycleStart + 1) cycleStart s of
           (pos, s) \<Rightarrow>
             if pos = cycleStart then cycle_outer yieldCompare n (cycleStart + 1) s
             else
               (let pos = cycle_skip item pos (arr s) in
                case (if pos \<noteq> cycleStart then cycle_put yieldCompare item pos s
                      else (item, s)) of
                  (item, s) \<Rightarrow>
                    Option.bind (cycle_rotate yieldCompare n cycleStart item pos s)
                      (\<lambda>s. cycle_outer yieldCompare n (cycleStart + 1) s)))
      else Some s)"

declare cycle_rotate.simps [code] cycle_outer.simps [code]

definition cycleSort :: "nat list \<Rightarrow> bool \<Rightarrow> nat sorting option" where
  "cycleSort a yieldCompare =
     map_option (yield_if yieldCompare None None)
       (cycle_outer yieldCompare (length a) 0 (initial a))"

section \<open>LSD radix sort\<close>

text \<open>\<open>Math.floor(arr[i] / exp) % 10\<close> for a key that is a natural number.\<close>

definition digit :: "nat \<Rightarrow> nat \<Rightarrow> nat" where
  "digit exp' x = (x div exp') mod 10"

text \<open>
  The four loops of one pass.  The first three yield whatever the flag says; only the
  copy-back loop and the final step test \<open>yieldCompare\<close>.
\<close>

function lsd_count :: "nat \<Rightarrow> nat \<Rightarrow> nat list \<Rightarrow> nat sorting \<Rightarrow> nat list \<times> nat sorting" where
  "lsd_count exp' i count' s =
     (if i < length (arr s) then
        (let d = digit exp' (arr s ! i);
             s = yield (Some []) (Some [i]) s;
             count' = count'[d := count' ! d + 1]
         in lsd_count exp' (i + 1) count' s)
      else (count', s))"
  by pat_completeness auto
termination
  by (relation "measure (\<lambda>(exp', i, count', s). length (arr s) - i)") auto

declare lsd_count.simps [simp del]

text \<open>\<open>for (let i = 1; i < 10; i++) count[i] += count[i - 1]\<close>, one step per update.\<close>

function lsd_cumulate :: "nat \<Rightarrow> nat list \<Rightarrow> nat sorting \<Rightarrow> nat list \<times> nat sorting" where
  "lsd_cumulate i count' s =
     (if i < 10 then
        (let count' = count'[i := count' ! i + count' ! (i - 1)];
             s = yield (Some []) (Some []) s
         in lsd_cumulate (i + 1) count' s)
      else (count', s))"
  by pat_completeness auto
termination
  by (relation "measure (\<lambda>(i, count', s). 10 - i)") auto

declare lsd_cumulate.simps [simp del]

text \<open>
  \<open>for (let i = arr.length - 1; i >= 0; i--)\<close> with \<open>i1 = i + 1\<close>;
  \<open>output[--count[digit]] = arr[i]\<close> decrements first.  It returns \<open>output\<close>.
\<close>

function lsd_place ::
  "nat \<Rightarrow> nat \<Rightarrow> nat list \<Rightarrow> nat list \<Rightarrow> nat sorting \<Rightarrow> nat list \<times> nat sorting" where
  "lsd_place exp' i1 count' output s =
     (if i1 > 0 then
        (let i = i1 - 1;
             d = digit exp' (arr s ! i);
             count' = count'[d := count' ! d - 1];
             output = output[count' ! d := arr s ! i];
             s = yield (Some []) (Some [i]) s
         in lsd_place exp' (i1 - 1) count' output s)
      else (output, s))"
  by pat_completeness auto
termination
  by (relation "measure (\<lambda>(exp', i1, count', output, s). i1)") auto

declare lsd_place.simps [simp del]

text \<open>The copy-back loop \<open>for (let i = 0; i < arr.length; i++)\<close>.\<close>

function lsd_copy :: "bool \<Rightarrow> nat list \<Rightarrow> nat \<Rightarrow> nat sorting \<Rightarrow> nat sorting" where
  "lsd_copy yieldCompare output i s =
     (if i < length (arr s) then
        (let s = store i (output ! i) s;
             s = count_swaps 1 s;
             s = yield_if yieldCompare (Some [i]) (Some []) s
         in lsd_copy yieldCompare output (i + 1) s)
      else s)"
  by pat_completeness auto
termination
  by (relation "measure (\<lambda>(yc, output, i, s). length (arr s) - i)") auto

declare lsd_copy.simps [simp del]

text \<open>The loop \<open>while (Math.floor(maxNum / exp) > 0)\<close>, ending each pass with \<open>exp *= 10\<close>.\<close>

function lsd_while :: "bool \<Rightarrow> nat \<Rightarrow> nat \<Rightarrow> nat sorting \<Rightarrow> nat sorting" where
  "lsd_while yieldCompare maxNum exp' s =
     (if maxNum div exp' > 0 then
        (let output = replicate (length (arr s)) 0;
             count' = replicate 10 0;
             (count', s) = lsd_count exp' 0 count' s;
             (count', s) = lsd_cumulate 1 count' s;
             (output, s) = lsd_place exp' (length (arr s)) count' output s;
             s = lsd_copy yieldCompare output 0 s
         in lsd_while yieldCompare maxNum (exp' * 10) s)
      else s)"
  by pat_completeness auto
termination
proof (relation "measure (\<lambda>(yc, maxNum, exp', s). maxNum + 1 - exp')", goal_cases)
  case 1
  then show ?case by simp
next
  case (2 yc maxNum exp' s)
  then have "0 < exp'" and "exp' \<le> maxNum"
    by (cases "exp' = 0"; simp add: div_greater_zero_iff)+
  then show ?case by simp
qed

declare lsd_while.simps [simp del]

text \<open>
  \<open>Math.max(...arr)\<close> of an empty array is \<open>-Infinity\<close>, for which the loop test fails as it
  does for 0.
\<close>

definition lsdRadixSort :: "nat list \<Rightarrow> bool \<Rightarrow> nat sorting" where
  "lsdRadixSort a yieldCompare =
     (let maxNum = fold max a 0;
          s = lsd_while yieldCompare maxNum 1 (initial a)
      in yield_if yieldCompare None None s)"

section \<open>Properties of the scheduler\<close>

text \<open>Consecutive groups of \<open>k\<close> elements, the last one possibly shorter.\<close>

fun chunks :: "nat \<Rightarrow> 'a list \<Rightarrow> 'a list list" where
  "chunks k xs = (if k = 0 \<or> xs = [] then [] else take k xs # chunks k (drop k xs))"

declare chunks.simps [simp del]

text \<open>An order that \<open>rearrangeImage\<close> can draw: every entry is a segment index.\<close>

definition segment_indexes :: "nat list \<Rightarrow> bool" where
  "segment_indexes ord \<longleftrightarrow> list_all (\<lambda>k. k < length ord) ord"

text \<open>The effects of one complete call of \<open>rearrangeImage\<close>.\<close>

definition draw :: "nat list \<Rightarrow> (nat list \<times> color) list \<Rightarrow> effect list" where
  "draw ord colored' =
     [DrawBackground, ClearCanvas] @ map (\<lambda>i. DrawSegment i (ord ! i)) [0..<length ord]
       @ fill_colored colored'"

text \<open>
  A step that a frame can present whatever its place in the frame: its snapshot lists
  segment indexes and, when the array given to \<open>animateSort\<close> is empty, it names no index
  to sound.  \<open>showable\<close> is the same for a queue entry.
\<close>

definition presentable :: "nat \<Rightarrow> nat step \<Rightarrow> bool" where
  "presentable n result \<longleftrightarrow>
     segment_indexes (array result)
     \<and> (n = 0 \<longrightarrow> or_empty (compareIndexes result) = [] \<and> or_empty (swappedIndexes result) = [])"

definition showable :: "nat \<Rightarrow> nat entry \<Rightarrow> bool" where
  "showable n e \<longleftrightarrow> segment_indexes (entry_array e) \<and> (n = 0 \<longrightarrow> soundIndexes e = [])"

lemma showable_push_entry: "presentable n result \<Longrightarrow> showable n (push_entry result)"
  by (simp add: presentable_def showable_def push_entry_def Let_def)

lemma draw_segments_all:
  "\<forall>k. i \<le> k \<and> k < length ord \<longrightarrow> ord ! k < length ord \<Longrightarrow>
     draw_segments ord i trace =
       (trace @ map (\<lambda>k. DrawSegment k (ord ! k)) [i..<length ord], None)"
proof (induction ord i trace rule: draw_segments.induct)
  case (1 ord i trace)
  show ?case
  proof (cases "i < length ord")
    case False
    then show ?thesis by (subst draw_segments.simps) simp
  next
    case True
    with "1.prems" have ok: "ord ! i < length ord" by simp
    have "draw_segments ord (i + 1) (trace @ [DrawSegment i (ord ! i)]) =
        ((trace @ [DrawSegment i (ord ! i)])
           @ map (\<lambda>k. DrawSegment k (ord ! k)) [i + 1..<length ord], None)"
      using "1.IH" [OF True refl ok] "1.prems" by simp
    with True ok show ?thesis
      by (subst draw_segments.simps) (simp add: upt_conv_Cons Let_def)
  qed
qed

lemma draw_segments_bad:
  "i \<le> k \<Longrightarrow> k < length ord \<Longrightarrow> \<not> ord ! k < length ord \<Longrightarrow>
     snd (draw_segments ord i trace) = Some TypeError"
proof (induction ord i trace rule: draw_segments.induct)
  case (1 ord i trace)
  from "1.prems" have i: "i < length ord" by simp
  show ?case
  proof (cases "ord ! i < length ord")
    case False
    with i show ?thesis by (subst draw_segments.simps) (simp add: Let_def)
  next
    case True
    with "1.prems" have "i \<noteq> k" by auto
    with "1.prems" have "i + 1 \<le> k" by simp
    from "1.IH" [OF i refl True this "1.prems"(2,3)] i True show ?thesis
      by (subst draw_segments.simps) (simp add: Let_def)
  qed
qed

lemma rearrangeImage_draw:
  "segment_indexes ord \<Longrightarrow> rearrangeImage (Some ord) cc = (draw ord cc, None)"
  using draw_segments_all [of 0 ord "[DrawBackground, ClearCanvas]"]
  by (simp add: rearrangeImage_def segment_indexes_def list_all_length draw_def)

lemma rearrangeImage_rejects:
  "\<not> segment_indexes ord \<Longrightarrow> snd (rearrangeImage (Some ord) cc) = Some TypeError"
proof -
  assume "\<not> segment_indexes ord"
  then obtain k where "k < length ord" "\<not> ord ! k < length ord"
    by (auto simp: segment_indexes_def list_all_length)
  from draw_segments_bad [OF _ this, of 0 "[DrawBackground, ClearCanvas]"]
  have "snd (draw_segments ord 0 [DrawBackground, ClearCanvas]) = Some TypeError" by simp
  then show ?thesis
    by (cases "draw_segments ord 0 [DrawBackground, ClearCanvas]") (simp add: rearrangeImage_def)
qed

lemma rearrangeImage_drawn:
  assumes "rearrangeImage (Some ord) cc = (drawn, None)"
  shows "segment_indexes ord \<and> drawn = draw ord cc"
proof (cases "segment_indexes ord")
  case True
  with assms show ?thesis by (simp add: rearrangeImage_draw)
next
  case False
  from rearrangeImage_rejects [OF this, of cc] assms show ?thesis by simp
qed

lemma playBeep_plays:
  "n = 0 \<longrightarrow> indexes = [] \<Longrightarrow> playBeep d n indexes = ([PlayBeep d n indexes], None)"
  by (auto simp: playBeep_def)

text \<open>The effects of one frame that folds the queue entries \<open>chunk\<close>.\<close>

definition frame_effects :: "nat \<Rightarrow> nat \<Rightarrow> nat entry list \<Rightarrow> effect list" where
  "frame_effects d n chunk =
     draw (entry_array (last chunk)) (concat (map colored chunk))
     @ [PlayBeep d n (fold (\<lambda>index s. set_add s index) (soundIndexes (hd chunk)) []),
        Asleep d]"

text \<open>How many entries one frame removes from a queue of \<open>len\<close> entries, counting from \<open>i\<close>.\<close>

fun frame_take :: "number \<Rightarrow> nat \<Rightarrow> nat \<Rightarrow> nat" where
  "frame_take (Finite k) i len = min len (nat (k - int i))"
| "frame_take PosInfinity i len = len"
| "frame_take NegInfinity i len = 0"
| "frame_take NaN i len = 0"

lemma drain_loop_take:
  "i + m = 80000 \<Longrightarrow>
   drain_loop results i queue fa =
     (queue @ map push_entry (take m results),
      if take m results = [] then fa else array (last (take m results)))"
proof (induction results arbitrary: i m queue fa)
  case Nil
  then show ?case by simp
next
  case (Cons r rs)
  show ?case
  proof (cases m)
    case 0
    with Cons.prems show ?thesis by simp
  next
    case (Suc m')
    with Cons.prems have "(i + 1) + m' = 80000" and "\<not> i + 1 > 80000" by simp_all
    with Cons.IH [of "i + 1" m'] Suc show ?thesis by simp
  qed
qed

lemma drain_loop_eq:
  "drain_loop results 0 [] fa =
     (map push_entry (take 80000 results),
      if results = [] then fa else array (last (take 80000 results)))"
  using drain_loop_take [of 0 80000 results "[]" fa] by simp

lemma less_number_frame_take:
  "less_number i k \<longleftrightarrow> 0 < frame_take k i (Suc len)"
  by (cases k) auto

lemma frame_take_Suc:
  "less_number i k \<Longrightarrow> frame_take k i (Suc len) = Suc (frame_take k (i + 1) len)"
  by (cases k) auto

lemma frame_loop_eq:
  "frame_loop k i queue (a, cc, cs) =
     (let t = take (frame_take k i (length queue)) queue in
      ((if t = [] then a else Some (entry_array (last t)),
        cc @ concat (map colored t),
        if i = 0 \<and> t \<noteq> [] then fold (\<lambda>index s. set_add s index) (soundIndexes (hd t)) cs else cs),
       drop (frame_take k i (length queue)) queue))"
proof (induction queue arbitrary: i a cc cs)
  case Nil
  then show ?case by simp
next
  case (Cons e q)
  show ?case
  proof (cases "less_number i k")
    case False
    then have "frame_take k i (Suc (length q)) = 0"
      using less_number_frame_take [of i k "length q"] by simp
    with False show ?thesis by simp
  next
    case True
    note ft = frame_take_Suc [OF True, of "length q"]
    show ?thesis
      using True by (simp add: Cons.IH ft Let_def)
  qed
qed

lemma present_chunks:
  assumes "0 < m" and "\<And>len. len \<le> L \<Longrightarrow> frame_take k 0 len = min len m"
  shows "length q \<le> L \<Longrightarrow> \<forall>e \<in> set q. showable n e \<Longrightarrow>
    present k d n q trace = (trace @ concat (map (frame_effects d n) (chunks m q)), None)"
proof (induction q arbitrary: trace rule: length_induct)
  case (1 q)
  show ?case
  proof (cases "q = []")
    case True
    then show ?thesis by (simp add: chunks.simps)
  next
    case False
    have ft: "frame_take k 0 (length q) = min (length q) m"
      using assms(2) "1.prems" by simp
    have tk: "take (min (length q) m) q = take m q" and dr: "drop (min (length q) m) q = drop m q"
      by (simp_all add: min_def)
    have ne: "take m q \<noteq> []"
      using False assms(1) by (cases q) auto
    have shorter: "length (drop m q) < length q"
      using False assms(1) by (cases q) auto
    have "last (take m q) \<in> set q" "hd (take m q) \<in> set q"
      using ne by (meson in_set_takeD last_in_set, meson in_set_takeD hd_in_set)
    with "1.prems"(2) have ok: "showable n (last (take m q))" "showable n (hd (take m q))"
      by simp_all
    have dr_ok: "\<forall>e \<in> set (drop m q). showable n e"
      using "1.prems"(2) by (meson in_set_dropD)
    have drawn: "rearrangeImage (Some (entry_array (last (take m q)))) (concat (map colored (take m q)))
        = (draw (entry_array (last (take m q))) (concat (map colored (take m q))), None)"
      using ok(1) by (simp add: showable_def rearrangeImage_draw)
    have hq: "hd (take m q) = hd q"
      using False assms(1) by (cases q) auto
    have beeped: "playBeep d n (fold (\<lambda>index s. set_add s index) (soundIndexes (hd q)) [])
        = ([PlayBeep d n (fold (\<lambda>index s. set_add s index) (soundIndexes (hd q)) [])], None)"
      using ok(2) unfolding hq by (intro playBeep_plays) (simp add: showable_def)
    have IH: "present k d n (drop m q) (trace @ frame_effects d n (take m q)) =
      ((trace @ frame_effects d n (take m q)) @
         concat (map (frame_effects d n) (chunks m (drop m q))), None)"
      using "1.IH" shorter "1.prems" dr_ok by simp
    have unfold: "present k d n q trace =
      present k d n (drop m q) (trace @ frame_effects d n (take m q))"
      using False ne
      by (subst present.simps)
        (simp add: frame_loop_eq ft tk dr frame_effects_def Let_def drawn beeped hq)
    have ch: "chunks m q = take m q # chunks m (drop m q)"
      using False assms(1) by (subst chunks.simps) simp
    show ?thesis
      by (simp add: unfold IH ch)
  qed
qed

lemma present_finite:
  "0 < k \<Longrightarrow> \<forall>e \<in> set q. showable n e \<Longrightarrow>
   present (Finite k) d n q trace =
     (trace @ concat (map (frame_effects d n) (chunks (nat k) q)), None)"
  by (rule present_chunks [where L = "length q"]) auto

lemma present_normal:
  assumes "less_number 0 k" and "\<forall>e \<in> set q. showable n e"
  shows "snd (present k d n q trace) = None"
proof (cases k)
  case (Finite x)
  with assms show ?thesis by (simp add: present_finite)
next
  case PosInfinity
  have "present k d n q trace =
     (trace @ concat (map (frame_effects d n) (chunks (Suc (length q)) q)), None)"
    using assms(2) by (intro present_chunks [where L = "length q"]) (auto simp: PosInfinity)
  then show ?thesis by simp
next
  case NegInfinity
  with assms show ?thesis by simp
next
  case NaN
  with assms show ?thesis by simp
qed



lemma concat_chunks: "0 < k \<Longrightarrow> concat (chunks k xs) = xs"
proof (induction xs rule: length_induct)
  case (1 xs)
  show ?case
  proof (cases "xs = []")
    case True
    then show ?thesis by (simp add: chunks.simps)
  next
    case False
    with "1.prems" have "length (drop k xs) < length xs" by (cases xs) auto
    with "1.IH" "1.prems" have "concat (chunks k (drop k xs)) = drop k xs" by simp
    with False "1.prems" show ?thesis by (subst chunks.simps) simp
  qed
qed

lemma chunks_lengths:
  "0 < k \<Longrightarrow> c \<in> set (chunks k xs) \<Longrightarrow> 0 < length c \<and> length c \<le> k"
proof (induction xs rule: length_induct)
  case (1 xs)
  show ?case
  proof (cases "xs = []")
    case True
    with "1.prems" show ?thesis by (simp add: chunks.simps)
  next
    case False
    with "1.prems" have shorter: "length (drop k xs) < length xs" by (cases xs) auto
    from False "1.prems" have "c = take k xs \<or> c \<in> set (chunks k (drop k xs))"
      by (subst (asm) chunks.simps) auto
    then show ?thesis
    proof
      assume "c = take k xs"
      with False "1.prems" show ?thesis by (cases xs) auto
    next
      assume "c \<in> set (chunks k (drop k xs))"
      with "1.IH" shorter "1.prems" show ?thesis by blast
    qed
  qed
qed

lemma chunks_butlast_full:
  "0 < k \<Longrightarrow> c \<in> set (butlast (chunks k xs)) \<Longrightarrow> length c = k"
proof (induction xs rule: length_induct)
  case (1 xs)
  show ?case
  proof (cases "xs = []")
    case True
    with "1.prems" show ?thesis by (simp add: chunks.simps)
  next
    case False
    with "1.prems" have shorter: "length (drop k xs) < length xs" by (cases xs) auto
    have ch: "chunks k xs = take k xs # chunks k (drop k xs)"
      using False "1.prems" by (subst chunks.simps) simp
    show ?thesis
    proof (cases "chunks k (drop k xs) = []")
      case True
      with ch "1.prems" show ?thesis by simp
    next
      case ne: False
      then have "drop k xs \<noteq> []" by (auto simp: chunks.simps)
      then have full: "length (take k xs) = k" by simp
      from ch ne "1.prems" have "c = take k xs \<or> c \<in> set (butlast (chunks k (drop k xs)))"
        by auto
      then show ?thesis
        using full "1.IH" shorter "1.prems" by blast
    qed
  qed
qed

lemma ceil_div_ceiling:
  "interval \<noteq> 0 \<Longrightarrow>
   ceil_div frameDuration interval =
     Finite \<lceil>real_of_int frameDuration / real_of_int interval\<rceil>"
  by (simp add: ceil_div_def ceiling_divide_eq_div)


lemma animateSort_normal:
  assumes "generator a yc = (results, settled)"
    and "less_number 0 (ceil_div (int frameDuration) (int interval)) \<or> results = []"
    and "\<forall>result \<in> set (take 80000 results). presentable (length a) result"
    and "results = [] \<longrightarrow> segment_indexes settled"
  shows "\<exists>trace. animateSort a interval frameDuration generator yc =
     (trace @ draw (if results = [] then settled else array (last (take 80000 results))) [],
      Inr (if results = [] then settled else array (last (take 80000 results))))"
proof -
  let ?k = "ceil_div (int frameDuration) (int interval)"
  let ?q = "map push_entry (take 80000 results)"
  let ?final = "if results = [] then settled else array (last (take 80000 results))"
  obtain trace thrown where p:
    "present ?k (max frameDuration interval) (length a) ?q [] = (trace, thrown)"
    by (cases "present ?k (max frameDuration interval) (length a) ?q []")
  have ok: "\<forall>e \<in> set ?q. showable (length a) e"
    using assms(3) by (auto intro: showable_push_entry)
  have "thrown = None"
  proof (cases "results = []")
    case True
    with p show ?thesis by simp
  next
    case False
    with assms(2) have "less_number 0 ?k" by simp
    from present_normal [OF this ok, of "max frameDuration interval" "[]"] p
    show ?thesis by simp
  qed
  moreover have "segment_indexes ?final"
  proof (cases "results = []")
    case True
    with assms(4) show ?thesis by simp
  next
    case False
    then have "take 80000 results \<noteq> []" by (cases results) auto
    then have "last (take 80000 results) \<in> set (take 80000 results)" by (rule last_in_set)
    with assms(3) False show ?thesis by (simp add: presentable_def)
  qed
  ultimately show ?thesis
    using p assms(1) by (simp add: animateSort_def drain_loop_eq rearrangeImage_draw)
qed

lemma animateSort_finite:
  assumes "generator a yc = (results, settled)"
    and "ceil_div (int frameDuration) (int interval) = Finite k" and "0 < k"
    and "\<forall>result \<in> set (take 80000 results). presentable (length a) result"
    and "results = [] \<longrightarrow> segment_indexes settled"
  shows "animateSort a interval frameDuration generator yc =
     (concat (map (frame_effects (max frameDuration interval) (length a))
        (chunks (nat k) (map push_entry (take 80000 results))))
      @ draw (if results = [] then settled else array (last (take 80000 results))) [],
      Inr (if results = [] then settled else array (last (take 80000 results))))"
proof -
  let ?q = "map push_entry (take 80000 results)"
  let ?final = "if results = [] then settled else array (last (take 80000 results))"
  have ok: "\<forall>e \<in> set ?q. showable (length a) e"
    using assms(4) by (auto intro: showable_push_entry)
  have "segment_indexes ?final"
  proof (cases "results = []")
    case True
    with assms(5) show ?thesis by simp
  next
    case False
    then have "take 80000 results \<noteq> []" by (cases results) auto
    then have "last (take 80000 results) \<in> set (take 80000 results)" by (rule last_in_set)
    with assms(4) False show ?thesis by (simp add: presentable_def)
  qed
  with assms(1,2) present_finite [OF assms(3) ok] show ?thesis
    by (simp add: animateSort_def drain_loop_eq rearrangeImage_draw)
qed


lemma animateSort_returned:
  assumes "generator a yc = (results, settled)"
    and "snd (animateSort a interval frameDuration generator yc) = Inr final"
  shows "final = (if results = [] then settled else array (last (take 80000 results)))
     \<and> segment_indexes final
     \<and> snd (present (ceil_div (int frameDuration) (int interval)) (max frameDuration interval)
          (length a) (map push_entry (take 80000 results)) []) = None
     \<and> fst (animateSort a interval frameDuration generator yc) =
         fst (present (ceil_div (int frameDuration) (int interval)) (max frameDuration interval)
           (length a) (map push_entry (take 80000 results)) []) @ draw final []"
proof -
  let ?k = "ceil_div (int frameDuration) (int interval)"
  let ?q = "map push_entry (take 80000 results)"
  let ?final = "if results = [] then settled else array (last (take 80000 results))"
  obtain trace thrown where p:
    "present ?k (max frameDuration interval) (length a) ?q [] = (trace, thrown)"
    by (cases "present ?k (max frameDuration interval) (length a) ?q []")
  obtain drawn rejected where r: "rearrangeImage (Some ?final) [] = (drawn, rejected)"
    by (cases "rearrangeImage (Some ?final) []")
  have unf: "animateSort a interval frameDuration generator yc =
      (case thrown of Some e \<Rightarrow> (trace, Inl e)
       | None \<Rightarrow> (case rejected of Some e \<Rightarrow> (trace @ drawn, Inl e)
                  | None \<Rightarrow> (trace @ drawn, Inr ?final)))"
    using assms(1) p r by (simp add: animateSort_def drain_loop_eq split: option.splits)
  from assms(2) have t: "thrown = None" and j: "rejected = None" and f: "final = ?final"
    unfolding unf by (auto split: option.splits)
  from rearrangeImage_drawn [OF r [unfolded j]] have "segment_indexes ?final" "drawn = draw ?final []"
    by simp_all
  with t j f p show ?thesis unfolding unf by simp
qed

lemma fold_set_add_set: "set (fold (\<lambda>index s. set_add s index) xs acc) = set acc \<union> set xs"
  by (induction xs arbitrary: acc) (auto simp: set_add_def)

lemma fold_set_add_distinct:
  "distinct (acc @ xs) \<Longrightarrow> fold (\<lambda>index s. set_add s index) xs acc = acc @ xs"
  by (induction xs arbitrary: acc) (auto simp: set_add_def)

lemma soundIndexes_push_entry:
  "soundIndexes (push_entry st) =
     (if or_empty (compareIndexes st) \<noteq> [] then or_empty (compareIndexes st)
      else or_empty (swappedIndexes st))"
  by (simp add: push_entry_def Let_def)

lemma chunks_sizes_example: "length xs = 10 \<Longrightarrow> map length (chunks 4 xs) = [4, 4, 2]"
  by (auto simp: chunks.simps)

section \<open>Claims about the scheduler\<close>

text \<open>
  C4, as stated, gives \<open>stepsPerFrame\<close> a minimum of 1.  The code computes
  \<open>Math.ceil(frameDuration / interval)\<close> and nothing else: a frame budget of 0 ms with a
  10 ms interval gives 0, not 1.
\<close>

theorem stepsPerFrame_no_minimum:
  "ceil_div 0 10 = Finite 0 \<and> ceil_div 0 10 \<noteq> Finite (max 1 \<lceil>real_of_int 0 / real_of_int 10\<rceil>)"
  by (simp add: ceil_div_def)

text \<open>
  C4, amended: \<open>stepsPerFrame\<close> is the ceiling of \<open>frameDuration / interval\<close>, with no
  minimum.  When it is at least 1 and every drained step can be presented (its snapshot
  lists segment indexes, as the permutations of \<open>0..n-1\<close> do), the presentation trace of
  \<open>animateSort\<close> is the concatenation of the frames of the drained queue cut, in order,
  into groups of exactly \<open>stepsPerFrame\<close> entries except for a possibly shorter last
  group, followed by the final redraw.  With interval 10 and frame duration 35 the value
  is 4, and a queue of 10 entries gives frames of sizes 4, 4, 2.
\<close>

theorem animateSort_frames:
  assumes "interval \<noteq> 0"
    and "0 < \<lceil>real frameDuration / real interval\<rceil>"
    and "generator a yc = (results, settled)"
    and "\<forall>result \<in> set (take 80000 results). presentable (length a) result"
    and "results = [] \<longrightarrow> segment_indexes settled"
  shows
    "ceil_div (int frameDuration) (int interval) = Finite \<lceil>real frameDuration / real interval\<rceil>
     \<and> fst (animateSort a interval frameDuration generator yc) =
         concat (map (frame_effects (max frameDuration interval) (length a))
           (chunks (nat \<lceil>real frameDuration / real interval\<rceil>)
              (map push_entry (take 80000 results))))
         @ draw (if results = [] then settled else array (last (take 80000 results))) []
     \<and> concat (chunks (nat \<lceil>real frameDuration / real interval\<rceil>)
           (map push_entry (take 80000 results))) = map push_entry (take 80000 results)
     \<and> (\<forall>c \<in> set (butlast (chunks (nat \<lceil>real frameDuration / real interval\<rceil>)
           (map push_entry (take 80000 results)))).
           length c = nat \<lceil>real frameDuration / real interval\<rceil>)
     \<and> (\<forall>c \<in> set (chunks (nat \<lceil>real frameDuration / real interval\<rceil>)
           (map push_entry (take 80000 results))).
           0 < length c \<and> length c \<le> nat \<lceil>real frameDuration / real interval\<rceil>)
     \<and> ceil_div 35 10 = Finite 4
     \<and> (length results = 10 \<longrightarrow>
          map length (chunks 4 (map push_entry (take 80000 results))) = [4, 4, 2])"
proof -
  let ?k = "\<lceil>real frameDuration / real interval\<rceil>"
  let ?q = "map push_entry (take 80000 results)"
  have k: "ceil_div (int frameDuration) (int interval) = Finite ?k"
    using assms(1) ceil_div_ceiling [of "int interval" "int frameDuration"] by simp
  have pos: "0 < nat ?k" using assms(2) by simp
  have trace: "fst (animateSort a interval frameDuration generator yc) =
         concat (map (frame_effects (max frameDuration interval) (length a)) (chunks (nat ?k) ?q))
         @ draw (if results = [] then settled else array (last (take 80000 results))) []"
    using animateSort_finite [where generator = generator, OF assms(3) k assms(2) assms(4) assms(5)]
    by simp
  have full: "\<forall>c \<in> set (butlast (chunks (nat ?k) ?q)). length c = nat ?k"
    using chunks_butlast_full [OF pos] by blast
  have some: "\<forall>c \<in> set (chunks (nat ?k) ?q). 0 < length c \<and> length c \<le> nat ?k"
    using chunks_lengths [OF pos] by blast
  have ex1: "ceil_div 35 10 = Finite 4" by (simp add: ceil_div_def)
  have ex2: "length results = 10 \<longrightarrow> map length (chunks 4 ?q) = [4, 4, 2]"
    by (simp add: chunks_sizes_example)
  show ?thesis
    using k trace concat_chunks [OF pos, of ?q] full some ex1 ex2 by blast
qed

theorem animateSort_frames_witness:
  "(10::nat) \<noteq> 0 \<and> 0 < \<lceil>real 35 / real 10\<rceil>
   \<and> list_all (presentable (length [2, 0, 1 :: nat])) (fst (accentGenerator [2, 0, 1]))
   \<and> ceil_div (int 35) (int 10) = Finite \<lceil>real 35 / real 10\<rceil>
   \<and> fst (animateSort [2, 0, 1] 10 35 (\<lambda>a yc. accentGenerator a) True) =
       concat (map (frame_effects (max 35 10) (length [2, 0, 1 :: nat]))
         (chunks (nat \<lceil>real 35 / real 10\<rceil>)
            (map push_entry (take 80000 (fst (accentGenerator [2, 0, 1]))))))
       @ draw [2, 0, 1] []"
proof -
  have h1: "(10::nat) \<noteq> 0" by simp
  have h2: "0 < \<lceil>real 35 / real 10\<rceil>" by simp
  have h3: "(\<lambda>a yc. accentGenerator a) [2, 0, 1 :: nat] True =
      (fst (accentGenerator [2, 0, 1 :: nat]), [2, 0, 1])"
    by (simp add: accentGenerator_def)
  have ok: "list_all (presentable (length [2, 0, 1 :: nat])) (fst (accentGenerator [2, 0, 1]))"
    by (simp add: accentGenerator_def presentable_def segment_indexes_def)
  then have h4: "\<forall>result \<in> set (take 80000 (fst (accentGenerator [2, 0, 1]))).
      presentable (length [2, 0, 1 :: nat]) result"
    by (auto simp: list_all_iff dest: in_set_takeD)
  have ne: "fst (accentGenerator [2, 0, 1 :: nat]) \<noteq> []"
    by (simp add: accentGenerator_def)
  then have h5: "fst (accentGenerator [2, 0, 1 :: nat]) = [] \<longrightarrow> segment_indexes [2, 0, 1]"
    by simp
  have la: "array (last (take 80000 (fst (accentGenerator [2, 0, 1 :: nat])))) = [2, 0, 1]"
    by (simp add: accentGenerator_def)
  from animateSort_frames [where generator = "\<lambda>a yc. accentGenerator a" and yc = True,
      OF h1 h2 h3 h4 h5]
    ne la h1 h2 ok show ?thesis by simp
qed

text \<open>
  C7: the sound indexes of a frame are those of the first step folded into it (its
  \<open>compareIndexes\<close> when non-empty, else its \<open>swappedIndexes\<close>), listed once each in their
  order of first occurrence as the \<open>Set\<close> keeps them; they do not depend on the later
  steps of the frame.  A frame built from a step comparing 1 and 2 followed by a step
  that swapped 3 reports \<open>[1, 2]\<close>.
\<close>

theorem frame_sound_from_first_step:
  assumes "less_number 0 numStepsPerFrame"
    and "frame_loop numStepsPerFrame 0 (map push_entry (first # later)) (None, [], []) =
           ((combinedArray, combinedColored, combinedSoundIndexes), queue')"
  shows
    "combinedSoundIndexes =
       fold (\<lambda>index s. set_add s index)
         (if or_empty (compareIndexes first) \<noteq> [] then or_empty (compareIndexes first)
          else or_empty (swappedIndexes first)) []
     \<and> set combinedSoundIndexes =
         set (if or_empty (compareIndexes first) \<noteq> [] then or_empty (compareIndexes first)
              else or_empty (swappedIndexes first))
     \<and> (distinct (if or_empty (compareIndexes first) \<noteq> [] then or_empty (compareIndexes first)
              else or_empty (swappedIndexes first)) \<longrightarrow>
         combinedSoundIndexes =
           (if or_empty (compareIndexes first) \<noteq> [] then or_empty (compareIndexes first)
            else or_empty (swappedIndexes first)))
     \<and> snd (snd (fst (frame_loop (Finite 2) 0
           (map push_entry
             [\<lparr>array = a1, swappedIndexes = None, compareIndexes = Some [1, 2],
               comparisons = None, swaps = None\<rparr>,
              \<lparr>array = a2, swappedIndexes = Some [3], compareIndexes = None,
               comparisons = None, swaps = None\<rparr>])
           (None, [], [])))) = [1, 2]"
proof -
  let ?idx = "if or_empty (compareIndexes first) \<noteq> [] then or_empty (compareIndexes first)
          else or_empty (swappedIndexes first)"
  have pos: "0 < frame_take numStepsPerFrame 0 (Suc (length later))"
    using assms(1) less_number_frame_take [of 0 numStepsPerFrame "length later"] by simp
  then have "take (frame_take numStepsPerFrame 0 (Suc (length later)))
      (push_entry first # map push_entry later) \<noteq> []"
    by (cases "frame_take numStepsPerFrame 0 (Suc (length later))") auto
  moreover have "hd (take (frame_take numStepsPerFrame 0 (Suc (length later)))
      (push_entry first # map push_entry later)) = push_entry first"
    using pos by (cases "frame_take numStepsPerFrame 0 (Suc (length later))") auto
  ultimately have cs: "combinedSoundIndexes = fold (\<lambda>index s. set_add s index) ?idx []"
    using assms(2) by (simp add: frame_loop_eq Let_def soundIndexes_push_entry)
  have st: "set combinedSoundIndexes = set ?idx"
    unfolding cs by (simp only: fold_set_add_set) simp
  have di: "distinct ?idx \<longrightarrow> combinedSoundIndexes = ?idx"
    unfolding cs using fold_set_add_distinct [of "[]" ?idx] by simp
  have ex: "snd (snd (fst (frame_loop (Finite 2) 0
           (map push_entry
             [\<lparr>array = a1, swappedIndexes = None, compareIndexes = Some [1, 2],
               comparisons = None, swaps = None\<rparr>,
              \<lparr>array = a2, swappedIndexes = Some [3], compareIndexes = None,
               comparisons = None, swaps = None\<rparr>])
           (None, [], [])))) = [1, 2]"
    by (simp add: push_entry_def or_empty_def set_add_def Let_def)
  from cs st di ex show ?thesis by blast
qed

theorem frame_sound_from_first_step_witness:
  "less_number 0 (Finite 4)
   \<and> snd (snd (fst (frame_loop (Finite 4) 0
        (map push_entry
          [\<lparr>array = [1, 0 :: nat], swappedIndexes = Some [], compareIndexes = Some [0, 0],
            comparisons = Some 1, swaps = Some 0\<rparr>,
           \<lparr>array = [0, 1], swappedIndexes = Some [0, 1], compareIndexes = Some [],
            comparisons = Some 1, swaps = Some 1\<rparr>])
        (None, [], [])))) = [0]"
proof -
  have h1: "less_number 0 (Finite 4)" by simp
  obtain ca cc cs q where h2:
    "frame_loop (Finite 4) 0
        (map push_entry
          (\<lparr>array = [1, 0 :: nat], swappedIndexes = Some [], compareIndexes = Some [0, 0],
            comparisons = Some 1, swaps = Some 0\<rparr> #
           [\<lparr>array = [0, 1], swappedIndexes = Some [0, 1], compareIndexes = Some [],
            comparisons = Some 1, swaps = Some 1\<rparr>]))
        (None, [], []) = ((ca, cc, cs), q)"
    by (metis prod.exhaust)
  from frame_sound_from_first_step [OF h1 h2] h2 h1 show ?thesis
    by (simp add: or_empty_def set_add_def push_entry_def Let_def)
qed

lemma last_replicate_cap:
  "0 < n \<Longrightarrow> last (take n (replicate n x @ ys)) = x"
  by (cases n) (auto simp: take_Suc_conv_app_nth)




text \<open>
  C10, as stated, has \<open>animateSort\<close> return a copy equal to the input whenever the generator
  yields no step.  Bubble sort with \<open>yieldCompare = false\<close> yields nothing and still sorts
  the copy in place: on \<open>[1, 0]\<close> the returned array is \<open>[0, 1]\<close>.
\<close>

theorem animateSort_silent_generator_mutates:
  "fst (generator_of bubbleSort [1, 0] False) = []
   \<and> animateSort [1, 0] 10 35 (generator_of bubbleSort) False =
       ([DrawBackground, ClearCanvas, DrawSegment 0 0, DrawSegment 1 1], Inr [0, 1])"
  by code_simp

text \<open>
  C10, amended: if the generator yields no step, \<open>animateSort\<close> presents no frame and plays
  no tone.  Its only effects are those of one redraw without highlights of the copy of
  the input as the generator left it, and it returns that array, provided the array
  lists segment indexes; otherwise that redraw is rejected with a \<open>TypeError\<close>.  The
  shuffle generator on an array of length 0 or 1 yields nothing and leaves the copy
  untouched, so there the result equals the input.
\<close>

theorem animateSort_no_steps:
  assumes "generator a yc = ([], settled)"
  shows
    "(segment_indexes settled \<longrightarrow>
        animateSort a interval frameDuration generator yc = (draw settled [], Inr settled))
     \<and> (\<not> segment_indexes settled \<longrightarrow>
        snd (animateSort a interval frameDuration generator yc) = Inl TypeError)
     \<and> draw settled [] =
         [DrawBackground, ClearCanvas] @ map (\<lambda>i. DrawSegment i (settled ! i)) [0..<length settled]
     \<and> (length b \<le> 1 \<and> segment_indexes b \<longrightarrow>
          shuffleGenerator random b = ([], b)
          \<and> animateSort b interval frameDuration (\<lambda>arr yc. shuffleGenerator random arr) yc
              = (draw b [], Inr b))"
proof -
  have gen: "segment_indexes settled \<longrightarrow>
      animateSort a interval frameDuration generator yc = (draw settled [], Inr settled)"
    using assms by (simp add: animateSort_def rearrangeImage_draw)
  have rej: "\<not> segment_indexes settled \<longrightarrow>
      snd (animateSort a interval frameDuration generator yc) = Inl TypeError"
  proof
    assume "\<not> segment_indexes settled"
    from rearrangeImage_rejects [OF this, of "[]"] assms show
      "snd (animateSort a interval frameDuration generator yc) = Inl TypeError"
      by (cases "rearrangeImage (Some settled) []") (simp add: animateSort_def)
  qed
  have dr: "draw settled [] =
      [DrawBackground, ClearCanvas] @ map (\<lambda>i. DrawSegment i (settled ! i)) [0..<length settled]"
    by (simp add: draw_def fill_colored_def)
  have sh: "length b \<le> 1 \<Longrightarrow> shuffleGenerator random b = ([], b)"
    by (cases b) (auto simp: shuffleGenerator_def)
  have "length b \<le> 1 \<and> segment_indexes b \<longrightarrow>
      animateSort b interval frameDuration (\<lambda>arr yc. shuffleGenerator random arr) yc
        = (draw b [], Inr b)"
    using sh by (simp add: animateSort_def rearrangeImage_draw)
  with gen rej dr sh show ?thesis by blast
qed

theorem animateSort_no_steps_witness:
  "shuffleGenerator (\<lambda>i. 0) [0 :: nat] = ([], [0])
   \<and> segment_indexes [0]
   \<and> animateSort [0] 10 35 (\<lambda>arr yc. shuffleGenerator (\<lambda>i. 0) arr) True
        = ([DrawBackground, ClearCanvas, DrawSegment 0 0], Inr [0])
   \<and> \<not> segment_indexes [7]
   \<and> snd (animateSort [7] 10 35 (\<lambda>arr yc. shuffleGenerator (\<lambda>i. 0) arr) True) = Inl TypeError"
proof -
  have g: "(\<lambda>arr yc. shuffleGenerator (\<lambda>i. 0) arr) [0 :: nat] True = ([], [0])"
    by (simp add: shuffleGenerator_def)
  have g7: "(\<lambda>arr yc. shuffleGenerator (\<lambda>i. 0) arr) [7 :: nat] True = ([], [7])"
    by (simp add: shuffleGenerator_def)
  have s: "segment_indexes [0]" and s7: "\<not> segment_indexes [7]"
    by (simp_all add: segment_indexes_def)
  from animateSort_no_steps
     [where generator = "\<lambda>arr yc. shuffleGenerator (\<lambda>i. 0) arr" and yc = True
        and b = "[0 :: nat]" and random = "\<lambda>i. 0" and interval = 10 and frameDuration = 35, OF g]
    animateSort_no_steps
     [where generator = "\<lambda>arr yc. shuffleGenerator (\<lambda>i. 0) arr" and yc = True
        and b = "[0 :: nat]" and random = "\<lambda>i. 0" and interval = 10 and frameDuration = 35, OF g7]
    s s7
  show ?thesis by simp
qed

lemma take_replicate_cap: "take n (replicate n x @ ys) = replicate n x"
  by simp

text \<open>
  C2, as stated, has the final draw show the generator's settled array even when the
  safety cap cut the run short.  A generator that yields 80001 steps, the first 80000
  with the array \<open>[1, 0]\<close> and the last one with the settled array \<open>[0, 1]\<close>, makes
  \<open>animateSort\<close> return \<open>[1, 0]\<close>: the snapshot of the last step it consumed.
\<close>

theorem animateSort_truncated_final_array:
  "snd (animateSort [1, 0] 10 10
     (\<lambda>a yc.
        (replicate 80000
           \<lparr>array = [1, 0], swappedIndexes = Some [], compareIndexes = Some [0, 1],
            comparisons = Some 1, swaps = Some 0\<rparr>
         @ [\<lparr>array = [0, 1], swappedIndexes = Some [0, 1], compareIndexes = Some [],
             comparisons = Some 1, swaps = Some 1\<rparr>],
         [0, 1]))
     True) = Inr [1, 0]"
proof -
  let ?s1 = "\<lparr>array = [1, 0 :: nat], swappedIndexes = Some [], compareIndexes = Some [0, 1],
            comparisons = Some 1, swaps = Some 0\<rparr>"
  let ?s2 = "\<lparr>array = [0, 1 :: nat], swappedIndexes = Some [0, 1], compareIndexes = Some [],
             comparisons = Some 1, swaps = Some 1\<rparr>"
  let ?g = "\<lambda>(a :: nat list) (yc :: bool). (replicate 80000 ?s1 @ [?s2], [0, 1 :: nat])"
  have g: "?g [1, 0] True = (replicate 80000 ?s1 @ [?s2], [0, 1])" by simp
  have k: "less_number 0 (ceil_div (int 10) (int 10)) \<or> replicate 80000 ?s1 @ [?s2] = []"
    by (simp add: ceil_div_def)
  have l: "array (last (take 80000 (replicate 80000 ?s1 @ [?s2]))) = [1, 0]"
    by (simp add: last_replicate_cap)
  have t: "take 80000 (replicate 80000 ?s1 @ [?s2]) = replicate 80000 ?s1"
    by (rule take_replicate_cap)
  have ok: "\<forall>result \<in> set (take 80000 (replicate 80000 ?s1 @ [?s2])).
      presentable (length [1, 0 :: nat]) result"
    unfolding t by (simp add: presentable_def segment_indexes_def)
  have e: "replicate 80000 ?s1 @ [?s2] = [] \<longrightarrow> segment_indexes [0, 1]" by simp
  from animateSort_normal
    [where generator = ?g and yc = True and a = "[1, 0]" and interval = 10 and frameDuration = 10,
      OF g k ok e]
  obtain trace where "animateSort [1, 0] 10 10 ?g True =
     (trace @ draw (if replicate 80000 ?s1 @ [?s2] = [] then [0, 1]
                     else array (last (take 80000 (replicate 80000 ?s1 @ [?s2])))) [],
      Inr (if replicate 80000 ?s1 @ [?s2] = [] then [0, 1]
           else array (last (take 80000 (replicate 80000 ?s1 @ [?s2])))))"
    by blast
  then show ?thesis by (simp only: l snd_conv) simp
qed

text \<open>
  C2, amended: the drain loop consumes at most the first 80000 steps.  Whenever
  \<open>animateSort\<close> returns, the array it returns is the snapshot carried by the last
  consumed step (or, when no step was yielded, the copy as the generator left it), and
  its last effects, after those of the presentation loop, are those of one redraw of
  that array without highlights.  It is the generator's settled array when the generator
  ends within 80000 steps and its last step carries the settled array.
\<close>

theorem animateSort_settles_last_consumed:
  assumes "generator a yc = (results, settled)"
    and "snd (animateSort a interval frameDuration generator yc) = Inr final"
  shows
    "drain_loop results 0 [] settled = (map push_entry (take 80000 results), final)
     \<and> final = (if results = [] then settled else array (last (take 80000 results)))
     \<and> fst (animateSort a interval frameDuration generator yc) =
         fst (present (ceil_div (int frameDuration) (int interval)) (max frameDuration interval)
           (length a) (map push_entry (take 80000 results)) []) @ draw final []
     \<and> draw final [] =
         [DrawBackground, ClearCanvas] @ map (\<lambda>i. DrawSegment i (final ! i)) [0..<length final]
     \<and> (length results \<le> 80000 \<and> (results \<noteq> [] \<longrightarrow> array (last results) = settled) \<longrightarrow>
         final = settled)"
proof -
  from animateSort_returned [where generator = generator, OF assms]
  have f: "final = (if results = [] then settled else array (last (take 80000 results)))"
    and t: "fst (animateSort a interval frameDuration generator yc) =
         fst (present (ceil_div (int frameDuration) (int interval)) (max frameDuration interval)
           (length a) (map push_entry (take 80000 results)) []) @ draw final []"
    by simp_all
  have d: "draw final [] =
      [DrawBackground, ClearCanvas] @ map (\<lambda>i. DrawSegment i (final ! i)) [0..<length final]"
    by (simp add: draw_def fill_colored_def)
  have dl: "drain_loop results 0 [] settled = (map push_entry (take 80000 results), final)"
    unfolding f by (simp add: drain_loop_eq)
  have "length results \<le> 80000 \<and> (results \<noteq> [] \<longrightarrow> array (last results) = settled) \<longrightarrow>
      final = settled"
    unfolding f by auto
  with dl f t d show ?thesis by blast
qed

theorem animateSort_settles_last_consumed_witness:
  "snd (animateSort [1, 0] 10 35 (generator_of bubbleSort) True) = Inr [0, 1]
   \<and> drain_loop (yielded (bubbleSort [1, 0] True)) 0 [] [0, 1] =
       (map push_entry (take 80000 (yielded (bubbleSort [1, 0] True))), [0, 1])
   \<and> (\<exists>trace. fst (animateSort [1, 0] 10 35 (generator_of bubbleSort) True) =
        trace @ [DrawBackground, ClearCanvas, DrawSegment 0 0, DrawSegment 1 1])"
proof -
  have g: "generator_of bubbleSort [1, 0] True = (yielded (bubbleSort [1, 0] True), [0, 1])"
    by code_simp
  have k: "less_number 0 (ceil_div (int 35) (int 10)) \<or> yielded (bubbleSort [1, 0] True) = []"
    by (simp add: ceil_div_def)
  have ok: "list_all (presentable (length [1, 0 :: nat])) (yielded (bubbleSort [1, 0] True))" by code_simp
  then have h: "\<forall>result \<in> set (take 80000 (yielded (bubbleSort [1, 0] True))).
      presentable (length [1, 0 :: nat]) result"
    by (auto simp: list_all_iff dest: in_set_takeD)
  have n: "length (yielded (bubbleSort [1, 0] True)) = 3" by code_simp
  have la: "array (last (yielded (bubbleSort [1, 0] True))) = [0, 1]" by code_simp
  from n have ne: "yielded (bubbleSort [1, 0] True) \<noteq> []" by auto
  from animateSort_normal [where generator = "generator_of bubbleSort" and yc = True
      and interval = 10 and frameDuration = 35, OF g k h] ne n la
  have r: "snd (animateSort [1, 0] 10 35 (generator_of bubbleSort) True) = Inr [0, 1]"
    by auto
  have d: "draw [0, 1] [] = [DrawBackground, ClearCanvas, DrawSegment 0 0, DrawSegment 1 1]"
    by (simp add: draw_def fill_colored_def)
  from animateSort_settles_last_consumed
    [where generator = "generator_of bubbleSort" and yc = True, OF g r]
  have dl: "drain_loop (yielded (bubbleSort [1, 0] True)) 0 [] [0, 1] =
       (map push_entry (take 80000 (yielded (bubbleSort [1, 0] True))), [0, 1])"
    and "\<exists>trace. fst (animateSort [1, 0] 10 35 (generator_of bubbleSort) True) =
        trace @ draw [0, 1] []"
    by blast+
  with r show ?thesis unfolding d by blast
qed

section \<open>Claims about merge sort's merge phase\<close>

lemma merge_loop_frame:
  "arr (snd (merge_loop yc mid right i j merged s)) = arr s
   \<and> stats_swaps (snd (merge_loop yc mid right i j merged s)) = stats_swaps s"
proof (induction yc mid right i j merged s rule: merge_loop.induct)
  case (1 yc mid right i j merged s)
  show ?case
    using 1
    by (subst (1 2) merge_loop.simps)
      (simp add: Let_def count_comparison_def yield_if_def yield_def)
qed

lemma merge_loop_yielded:
  "\<exists>new. yielded (snd (merge_loop yc mid right i j merged s)) = yielded s @ new
     \<and> (\<forall>st \<in> set new. swappedIndexes st = Some [] \<and> array st = arr s)"
proof (induction yc mid right i j merged s rule: merge_loop.induct)
  case (1 yc mid right i j merged s)
  let ?s = "yield_if yc (Some []) (Some [i, j]) (count_comparison s)"
  have a: "arr ?s = arr s" by (simp add: yield_if_def yield_def count_comparison_def)
  have y: "\<exists>new. yielded ?s = yielded s @ new
     \<and> (\<forall>st \<in> set new. swappedIndexes st = Some [] \<and> array st = arr s)"
    by (simp add: yield_if_def yield_def count_comparison_def)
  show ?case
  proof (cases "i \<le> mid \<and> j \<le> right")
    case False
    then show ?thesis by (subst merge_loop.simps) auto
  next
    case True
    show ?thesis
    proof (cases "arr ?s ! i \<le> arr ?s ! j")
      case le: True
      from "1.IH"(1) [OF True refl refl le] a y True le show ?thesis
        by (subst merge_loop.simps) (auto simp: Let_def)
    next
      case gt: False
      from "1.IH"(2) [OF True refl refl gt] a y True gt show ?thesis
        by (subst merge_loop.simps) (auto simp: Let_def)
    qed
  qed
qed

lemma fold_store_frame:
  "stats_swaps (fold (\<lambda>k. store k (f k)) ks s) = stats_swaps s
   \<and> stats_comparisons (fold (\<lambda>k. store k (f k)) ks s) = stats_comparisons s
   \<and> yielded (fold (\<lambda>k. store k (f k)) ks s) = yielded s"
  by (induction ks arbitrary: s) (simp_all add: store_def)

text \<open>
  C5, as stated, ends with an example: merging the halves \<open>[3, 1]\<close> and \<open>[2, 4]\<close> is said to
  give \<open>[1, 2, 3, 4]\<close> with \<open>swappedIndexes = [0, 1, 2, 3]\<close>.  \<open>merge\<close> on that range gives
  \<open>[2, 3, 1, 4]\<close> and lists \<open>[0, 1, 2]\<close>; position 3 keeps its value.  \<open>mergeSort\<close> on
  \<open>[3, 1, 2, 4]\<close> does reach \<open>[1, 2, 3, 4]\<close>, and its last merge lists \<open>[1, 2]\<close>.
\<close>

theorem merge_example_changed_positions:
  "arr (merge True 0 1 3 (initial [3, 1, 2, 4])) = [2, 3, 1, 4]
   \<and> swappedIndexes (last (yielded (merge True 0 1 3 (initial [3, 1, 2, 4])))) = Some [0, 1, 2]
   \<and> arr (mergeSort [3, 1, 2, 4] True) = [1, 2, 3, 4]
   \<and> swappedIndexes (last (yielded (mergeSort [3, 1, 2, 4] True))) = Some [1, 2]"
  by code_simp

text \<open>
  C5, amended: for a merge range \<open>left \<le> mid < right\<close> inside the array and
  \<open>yieldCompare = true\<close>, \<open>merge\<close> yields comparison steps (each with empty
  \<open>swappedIndexes\<close> and the pre-merge array) and then, if some position of the range
  changed, exactly one more step whose \<open>swappedIndexes\<close> are the positions of the range
  whose value differs from the pre-merge snapshot; the swaps counter grows by the number
  of those positions.  On the range values \<open>[3, 1, 2, 4]\<close> with halves \<open>[3, 1]\<close> and
  \<open>[2, 4]\<close> the result is \<open>[2, 3, 1, 4]\<close> and the step lists \<open>[0, 1, 2]\<close>.
\<close>

theorem merge_consolidated_step:
  assumes "left \<le> mid" and "mid < right" and "right < length (arr s)"
  shows
    "stats_swaps (merge True left mid right s) =
       stats_swaps s
       + length (filter (\<lambda>k. arr (merge True left mid right s) ! k \<noteq> arr s ! k) [left..<Suc right])
     \<and> (\<exists>compared.
          yielded (merge True left mid right s) =
            yielded s @ compared @
            (if filter (\<lambda>k. arr (merge True left mid right s) ! k \<noteq> arr s ! k) [left..<Suc right] = []
             then []
             else [\<lparr>array = arr (merge True left mid right s),
                     swappedIndexes =
                       Some (filter (\<lambda>k. arr (merge True left mid right s) ! k \<noteq> arr s ! k)
                              [left..<Suc right]),
                     compareIndexes = Some [],
                     comparisons = Some (stats_comparisons (merge True left mid right s)),
                     swaps = Some (stats_swaps (merge True left mid right s))\<rparr>])
          \<and> (\<forall>st \<in> set compared. swappedIndexes st = Some [] \<and> array st = arr s))
     \<and> arr (merge True 0 1 3 (initial [3, 1, 2, 4])) = [2, 3, 1, 4]
     \<and> swappedIndexes (last (yielded (merge True 0 1 3 (initial [3, 1, 2, 4])))) = Some [0, 1, 2]"
proof -
  obtain i j merged s1 where ml:
    "merge_loop True mid right left (mid + 1) [] s = ((i, j, merged), s1)"
    by (metis prod.exhaust)
  from merge_loop_frame [of True mid right left "mid + 1" "[]" s] ml
  have a1: "arr s1 = arr s" and w1: "stats_swaps s1 = stats_swaps s" by simp_all
  from merge_loop_yielded [of True mid right left "mid + 1" "[]" s] ml
  obtain compared where y1: "yielded s1 = yielded s @ compared"
    and c1: "\<forall>st \<in> set compared. swappedIndexes st = Some [] \<and> array st = arr s"
    by auto
  define s2 where "s2 =
    fold (\<lambda>k. store k
        (((merged @ map (\<lambda>k. arr s1 ! k) [i..<Suc mid]) @ map (\<lambda>k. arr s1 ! k) [j..<Suc right])
           ! (k - left)))
      [left..<Suc right] s1"
  define sw where "sw = filter (\<lambda>k. arr s2 ! k \<noteq> arr s ! k) [left..<Suc right]"
  have m: "merge True left mid right s =
     (if length sw > 0 then yield (Some sw) (Some []) (count_swaps (length sw) s2) else s2)"
    unfolding sw_def s2_def by (simp only: merge_def ml Let_def prod.case simp_thms)
  have f2: "stats_swaps s2 = stats_swaps s" "yielded s2 = yielded s @ compared"
    unfolding s2_def using w1 y1 by (simp_all only: fold_store_frame)
  have am: "arr (merge True left mid right s) = arr s2"
    by (simp add: m yield_def count_swaps_def)
  have swe: "filter (\<lambda>k. arr (merge True left mid right s) ! k \<noteq> arr s ! k) [left..<Suc right] = sw"
    unfolding sw_def am ..
  have ex: "arr (merge True 0 1 3 (initial [3, 1, 2, 4])) = [2, 3, 1, 4]
     \<and> swappedIndexes (last (yielded (merge True 0 1 3 (initial [3, 1, 2, 4])))) = Some [0, 1, 2]"
    by code_simp
  show ?thesis
  proof (cases "sw = []")
    case True
    with m have "merge True left mid right s = s2" by simp
    with True f2 c1 ex show ?thesis
      unfolding swe by auto
  next
    case False
    with m have e: "merge True left mid right s =
        yield (Some sw) (Some []) (count_swaps (length sw) s2)" by simp
    have w: "stats_swaps (merge True left mid right s) = stats_swaps s + length sw"
      by (simp add: e yield_def count_swaps_def f2)
    have y: "yielded (merge True left mid right s) =
        yielded s @ compared @
          [\<lparr>array = arr (merge True left mid right s), swappedIndexes = Some sw,
            compareIndexes = Some [],
            comparisons = Some (stats_comparisons (merge True left mid right s)),
            swaps = Some (stats_swaps (merge True left mid right s))\<rparr>]"
      by (simp add: e yield_def count_swaps_def f2)
    from w y c1 False ex show ?thesis
      unfolding swe by auto
  qed
qed

theorem merge_consolidated_step_witness:
  "(0::nat) \<le> 0 \<and> (0::nat) < 1 \<and> 1 < length (arr (initial [1, 0]))
   \<and> stats_swaps (merge True 0 0 1 (initial [1, 0])) = 2
   \<and> or_empty (swappedIndexes (last (yielded (merge True 0 0 1 (initial [1, 0]))))) = [0, 1]"
proof -
  have h1: "(0::nat) \<le> 0" and h2: "(0::nat) < 1" by simp_all
  have h3: "1 < length (arr (initial [1, 0]))" by (simp add: initial_def)
  have v: "arr (merge True 0 0 1 (initial [1, 0])) = [0, 1]" by code_simp
  have f: "filter (\<lambda>k. [0, 1 :: nat] ! k \<noteq> arr (initial [1, 0]) ! k) [0..<Suc 1] = [0, 1]"
    by code_simp
  have w: "stats_swaps (initial [1, 0 :: nat]) = 0" by (simp add: initial_def)
  from merge_consolidated_step [OF h1 h2 h3] h3
  show ?thesis
    unfolding v f w by (auto simp: or_empty_def simp del: upt_Suc)
qed

section \<open>Steps without highlights\<close>

text \<open>A step whose \<open>compareIndexes\<close> and \<open>swappedIndexes\<close> are both empty or missing.\<close>

definition both_empty :: "'a step \<Rightarrow> bool" where
  "both_empty st \<longleftrightarrow> or_empty (swappedIndexes st) = [] \<and> or_empty (compareIndexes st) = []"

text \<open>No step yielded so far is without highlights.\<close>

definition tidy :: "'a sorting \<Rightarrow> bool" where
  "tidy s \<longleftrightarrow> (\<forall>st \<in> set (yielded s). \<not> both_empty st)"


lemma or_empty_simps [simp]: "or_empty None = []" "or_empty (Some l) = l"
  by (simp_all add: or_empty_def)

lemma tidy_initial [simp]: "tidy (initial a)"
  by (simp add: tidy_def initial_def)

lemma tidy_count_comparison [simp]: "tidy (count_comparison s) = tidy s"
  by (simp add: tidy_def count_comparison_def)

lemma tidy_count_swaps [simp]: "tidy (count_swaps k s) = tidy s"
  by (simp add: tidy_def count_swaps_def)

lemma tidy_exchange [simp]: "tidy (exchange i j s) = tidy s"
  by (simp add: tidy_def exchange_def)

lemma tidy_store [simp]: "tidy (store i v s) = tidy s"
  by (simp add: tidy_def store_def)

lemma tidy_js_exchange [simp]: "tidy (js_exchange i j s) = tidy s"
  by (simp add: tidy_def js_exchange_def Let_def)

lemma tidy_yield [simp]:
  "tidy (yield sw cmp s) \<longleftrightarrow> tidy s \<and> (or_empty sw \<noteq> [] \<or> or_empty cmp \<noteq> [])"
  by (auto simp: tidy_def yield_def both_empty_def)

lemma tidy_yield_if [simp]:
  "tidy (yield_if yc sw cmp s) \<longleftrightarrow> tidy s \<and> (yc \<longrightarrow> or_empty sw \<noteq> [] \<or> or_empty cmp \<noteq> [])"
  by (simp add: yield_if_def)





































section \<open>The flag \<open>yieldCompare\<close>\<close>

lemma yielded_count_comparison [simp]: "yielded (count_comparison s) = yielded s"
  by (simp add: count_comparison_def)

lemma yielded_count_swaps [simp]: "yielded (count_swaps k s) = yielded s"
  by (simp add: count_swaps_def)

lemma yielded_exchange [simp]: "yielded (exchange i j s) = yielded s"
  by (simp add: exchange_def)

lemma yielded_store [simp]: "yielded (store i v s) = yielded s"
  by (simp add: store_def)

lemma yielded_js_exchange [simp]: "yielded (js_exchange i j s) = yielded s"
  by (simp add: js_exchange_def Let_def)

lemma yield_if_False [simp]: "yield_if False sw cmp s = s"
  by (simp add: yield_if_def)

lemma yield_if_True [simp]: "yield_if True sw cmp s = yield sw cmp s"
  by (simp add: yield_if_def)

lemma yielded_initial [simp]: "yielded (initial a) = []"
  by (simp add: initial_def)

subsection \<open>Drivers that yield nothing without the flag\<close>

lemma silent_merge_loop:
  "yielded (snd (merge_loop False mid right i j merged s)) = yielded s"
  by (induction "False" mid right i j merged s rule: merge_loop.induct)
    (subst merge_loop.simps, simp add: Let_def)

lemma yielded_fold_store: "yielded (fold (\<lambda>k. store k (f k)) ks s) = yielded s"
  by (induction ks arbitrary: s) simp_all

lemma silent_merge: "yielded (merge False left mid right s) = yielded s"
  using silent_merge_loop [of mid right left "mid + 1" "[]" s]
  by (auto simp: merge_def Let_def yielded_fold_store split: prod.splits simp del: upt_Suc)

lemma silent_mergeSortRecursive: "yielded (mergeSortRecursive False left right s) = yielded s"
  by (induction "False" left right s rule: mergeSortRecursive.induct)
    (subst mergeSortRecursive.simps, simp add: Let_def silent_merge)

lemma silent_partition_loop:
  "yielded (snd (partition_loop False pivot high j i1 s)) = yielded s"
  by (induction "False" pivot high j i1 s rule: partition_loop.induct)
    (subst partition_loop.simps, simp add: Let_def)

lemma silent_partition: "yielded (snd (partition False low high s)) = yielded s"
  using silent_partition_loop [of "arr s ! high" high low low s]
  by (auto simp: partition_def Let_def split: prod.splits)

lemma silent_quickSortRecursive: "yielded (quickSortRecursive False low high s) = yielded s"
proof (induction "False" low high s rule: quickSortRecursive.induct)
  case (1 low high s)
  show ?case
  proof (cases "low < high")
    case False
    then show ?thesis by (subst quickSortRecursive.simps) simp
  next
    case True
    obtain p s1 where p: "partition False low high s = (p, s1)"
      by (cases "partition False low high s")
    have y1: "yielded s1 = yielded s" using silent_partition [of low high s] p by simp
    have y2: "yielded (quickSortRecursive False low (p - 1) s1) = yielded s1"
      by (rule "1.hyps"(1) [OF True p [symmetric]])
    have y3: "yielded (quickSortRecursive False (p + 1) high (quickSortRecursive False low (p - 1) s1))
        = yielded (quickSortRecursive False low (p - 1) s1)"
      by (rule "1.hyps"(2) [OF True p [symmetric] refl])
    from True p y1 y2 y3 show ?thesis
      by (subst quickSortRecursive.simps) (simp add: Let_def)
  qed
qed

lemma silent_bubble_inner:
  "yielded (snd (bubble_inner False n i j swapped s)) = yielded s"
  by (induction "False" n i j swapped s rule: bubble_inner.induct)
    (subst bubble_inner.simps, simp add: Let_def)

lemma silent_bubble_outer: "yielded (bubble_outer False n i s) = yielded s"
proof (induction "False" n i s rule: bubble_outer.induct)
  case (1 n i s)
  then show ?case
    using silent_bubble_inner [of n i 0 False s]
    by (subst bubble_outer.simps) (auto split: prod.splits)
qed

lemma silent_cocktail_forward:
  "yielded (snd (cocktail_forward False e i swapped s)) = yielded s"
  by (induction "False" e i swapped s rule: cocktail_forward.induct)
    (subst cocktail_forward.simps, simp add: Let_def)

lemma silent_cocktail_backward:
  "yielded (snd (cocktail_backward False b i swapped s)) = yielded s"
  by (induction "False" b i swapped s rule: cocktail_backward.induct)
    (subst cocktail_backward.simps, simp add: Let_def)

lemma silent_cocktail_while: "yielded (cocktail_while False b e s) = yielded s"
proof (induction "False" b e s rule: cocktail_while.induct)
  case (1 b e s)
  show ?case
  proof (cases "b < e")
    case False
    then show ?thesis by (subst cocktail_while.simps) simp
  next
    case True
    obtain sw1 s1 where f: "cocktail_forward False e b False s = (sw1, s1)"
      by (cases "cocktail_forward False e b False s")
    obtain sw2 s2 where b: "cocktail_backward False b (e - 1) False s1 = (sw2, s2)"
      by (cases "cocktail_backward False b (e - 1) False s1")
    have y1: "yielded s1 = yielded s" using silent_cocktail_forward [of e b False s] f by simp
    have y2: "yielded s2 = yielded s1" using silent_cocktail_backward [of b "e - 1" False s1] b by simp
    show ?thesis
    proof (cases "sw1 \<and> sw2")
      case False
      with True f b y1 y2 show ?thesis
        by (subst cocktail_while.simps) (auto simp: Let_def)
    next
      case both: True
      from "1.hyps" [OF True f [symmetric] _ refl b [symmetric]] both
      have "yielded (cocktail_while False (b + 1) (e - 1) s2) = yielded s2" by simp
      with True f b both y1 y2 show ?thesis
        by (subst cocktail_while.simps) (simp add: Let_def)
    qed
  qed
qed

lemma silent_gnome_loop:
  assumes "gnome_loop yc index s = Some s'"
  shows "\<not> yc \<longrightarrow> yielded s' = yielded s"
  by (rule gnome_loop.raw_induct [OF _ assms]) (auto simp: Let_def split: if_splits)

lemma silent_comb_pass: "yielded (snd (comb_pass False gap i sorted' s)) = yielded s"
  by (induction "False" gap i sorted' s rule: comb_pass.induct)
    (subst comb_pass.simps, simp add: Let_def)

lemma silent_comb_while: "yielded (comb_while False gap sorted' s) = yielded s"
proof (induction "False" gap sorted' s rule: comb_while.induct)
  case (1 gap sorted' s)
  show ?case
  proof (cases sorted')
    case True
    then show ?thesis by (subst comb_while.simps) simp
  next
    case False
    define gap2 where "gap2 = (if gap * 10 div 13 \<le> 1 then 1 else gap * 10 div 13)"
    define sorted2 where "sorted2 = (gap * 10 div 13 \<le> 1)"
    obtain sorted3 s3 where p: "comb_pass False gap2 0 sorted2 s = (sorted3, s3)"
      by (cases "comb_pass False gap2 0 sorted2 s")
    have y: "yielded s3 = yielded s" using silent_comb_pass [of gap2 0 sorted2 s] p by simp
    have unf: "comb_while False gap sorted' s = comb_while False gap2 sorted3 s3"
      using False p
      by (subst comb_while.simps, cases "gap * 10 div 13 \<le> 1")
        (simp_all add: Let_def gap2_def sorted2_def)
    have "yielded (comb_while False gap2 sorted3 s3) = yielded s3"
      by (rule "1.hyps" [OF False refl refl _ p [symmetric]])
        (simp add: gap2_def sorted2_def)
    then show ?thesis by (simp add: unf y)
  qed
qed

lemma silent_shell_while: "yielded (snd (shell_while False gap temp j s)) = yielded s"
  by (induction "False" gap temp j s rule: shell_while.induct)
    (subst shell_while.simps, simp add: Let_def)

lemma silent_shell_for: "yielded (shell_for False n gap i s) = yielded s"
proof (induction "False" n gap i s rule: shell_for.induct)
  case (1 n gap i s)
  then show ?case
    using silent_shell_while [of gap "arr s ! i" i s]
    by (subst shell_for.simps) (auto simp: Let_def split: prod.splits)
qed

lemma silent_shell_gaps: "yielded (shell_gaps False n gap s) = yielded s"
  by (induction "False" n gap s rule: shell_gaps.induct)
    (subst shell_gaps.simps, simp add: silent_shell_for)

lemma silent_heapify: "yielded (heapify False n i s) = yielded s"
  by (induction "False" n i s rule: heapify.induct)
    (subst heapify.simps, simp add: Let_def)

lemma silent_heap_build: "yielded (heap_build False n i1 s) = yielded s"
  by (induction "False" n i1 s rule: heap_build.induct)
    (subst heap_build.simps, simp add: silent_heapify)

lemma silent_heap_extract: "yielded (heap_extract False i s) = yielded s"
  by (induction "False" i s rule: heap_extract.induct)
    (subst heap_extract.simps, simp add: silent_heapify Let_def)

lemma silent_oddEven_pass: "yielded (snd (oddEven_pass False i sorted' s)) = yielded s"
  by (induction "False" i sorted' s rule: oddEven_pass.induct)
    (subst oddEven_pass.simps, simp add: Let_def)

lemma silent_oddEven_while: "yielded (oddEven_while False sorted' s) = yielded s"
proof (induction "False" sorted' s rule: oddEven_while.induct)
  case (1 sorted' s)
  show ?case
  proof (cases sorted')
    case True
    then show ?thesis by (subst oddEven_while.simps) simp
  next
    case False
    obtain sorted1 s1 where p1: "oddEven_pass False 1 True s = (sorted1, s1)"
      by (cases "oddEven_pass False 1 True s")
    obtain sorted2 s2 where p2: "oddEven_pass False 0 sorted1 s1 = (sorted2, s2)"
      by (cases "oddEven_pass False 0 sorted1 s1")
    have y1: "yielded s1 = yielded s" using silent_oddEven_pass [of 1 True s] p1 by simp
    have y2: "yielded s2 = yielded s1" using silent_oddEven_pass [of 0 sorted1 s1] p2 by simp
    have "yielded (oddEven_while False sorted2 s2) = yielded s2"
      by (rule "1.hyps" [OF False p1 [symmetric] p2 [symmetric]])
    with False p1 p2 y1 y2 show ?thesis
      by (subst oddEven_while.simps) simp
  qed
qed

lemma silent_bitonic_loop: "yielded (bitonic_loop False up mid bound i s) = yielded s"
  by (induction "False" up mid bound i s rule: bitonic_loop.induct)
    (subst bitonic_loop.simps, simp add: Let_def)

lemma silent_bitonicMerge: "yielded (bitonicMerge False low cnt up s) = yielded s"
  by (induction "False" low cnt up s rule: bitonicMerge.induct)
    (subst bitonicMerge.simps, simp add: Let_def silent_bitonic_loop)

lemma silent_bitonicSortRec: "yielded (bitonicSortRec False low cnt up s) = yielded s"
  by (induction "False" low cnt up s rule: bitonicSortRec.induct)
    (subst bitonicSortRec.simps, simp add: Let_def silent_bitonicMerge)

lemma silent_cycle_count: "yielded (snd (cycle_count False n item i pos s)) = yielded s"
  by (induction "False" n item i pos s rule: cycle_count.induct)
    (subst cycle_count.simps, simp add: Let_def)

lemma silent_cycle_put: "yielded (snd (cycle_put False item pos s)) = yielded s"
  by (simp add: cycle_put_def Let_def)

lemma silent_cycle_rotate:
  assumes "cycle_rotate yc n cycleStart item pos s = Some s'"
  shows "\<not> yc \<longrightarrow> yielded s' = yielded s"
proof (rule cycle_rotate.raw_induct [OF _ assms], goal_cases)
  case (1 f yc n cycleStart item pos s s')
  show ?case
  proof
    assume yc: "\<not> yc"
    obtain pos1 s1 where c: "cycle_count yc n item (cycleStart + 1) cycleStart s = (pos1, s1)"
      by (cases "cycle_count yc n item (cycleStart + 1) cycleStart s")
    obtain item2 s2 where p: "cycle_put yc item (cycle_skip item pos1 (arr s1)) s1 = (item2, s2)"
      by (cases "cycle_put yc item (cycle_skip item pos1 (arr s1)) s1")
    have y1: "yielded s1 = yielded s"
      using silent_cycle_count [of n item "cycleStart + 1" cycleStart s] c yc by simp
    have y2: "yielded s2 = yielded s1"
      using silent_cycle_put [of item "cycle_skip item pos1 (arr s1)" s1] p yc by simp
    from 1(2) yc y1 y2 c p 1(1) show "yielded s' = yielded s"
      by (auto simp: Let_def split: if_splits)
  qed
qed

lemma silent_cycle_outer:
  assumes "cycle_outer yc n cycleStart s = Some s'"
  shows "\<not> yc \<longrightarrow> yielded s' = yielded s"
proof (rule cycle_outer.raw_induct [OF _ assms], goal_cases)
  case (1 f yc n cycleStart s s')
  show ?case
  proof
    assume yc: "\<not> yc"
    let ?item = "arr s ! cycleStart"
    obtain pos1 s1 where c: "cycle_count yc n ?item (cycleStart + 1) cycleStart s = (pos1, s1)"
      by (cases "cycle_count yc n ?item (cycleStart + 1) cycleStart s")
    let ?pos = "cycle_skip ?item pos1 (arr s1)"
    obtain item2 s2 where p: "cycle_put yc ?item ?pos s1 = (item2, s2)"
      by (cases "cycle_put yc ?item ?pos s1")
    have y1: "yielded s1 = yielded s"
      using silent_cycle_count [of n ?item "cycleStart + 1" cycleStart s] c yc by simp
    have y2: "yielded s2 = yielded s1"
      using silent_cycle_put [of ?item ?pos s1] p yc by simp
    from 1(2) yc y1 y2 c p 1(1) silent_cycle_rotate show "yielded s' = yielded s"
      by (auto simp: Let_def split: if_splits Option.bind_splits)
  qed
qed

subsection \<open>Drivers that keep some of their steps\<close>

definition suppress :: "('a step \<Rightarrow> bool) \<Rightarrow> 'a sorting \<Rightarrow> 'a sorting" where
  "suppress keep s = s\<lparr>yielded := filter keep (yielded s)\<rparr>"

lemma arr_suppress [simp]: "arr (suppress keep s) = arr s"
  by (simp add: suppress_def)

lemma stats_suppress [simp]:
  "stats_comparisons (suppress keep s) = stats_comparisons s"
  "stats_swaps (suppress keep s) = stats_swaps s"
  by (simp_all add: suppress_def)

lemma yielded_suppress [simp]: "yielded (suppress keep s) = filter keep (yielded s)"
  by (simp add: suppress_def)

lemma suppress_initial [simp]: "suppress keep (initial a) = initial a"
  by (simp add: suppress_def initial_def)

lemma suppress_count_comparison [simp]:
  "suppress keep (count_comparison s) = count_comparison (suppress keep s)"
  by (simp add: suppress_def count_comparison_def)

lemma suppress_count_swaps [simp]:
  "suppress keep (count_swaps k s) = count_swaps k (suppress keep s)"
  by (simp add: suppress_def count_swaps_def)

lemma suppress_store [simp]: "suppress keep (store i v s) = store i v (suppress keep s)"
  by (simp add: suppress_def store_def)

lemma suppress_exchange [simp]: "suppress keep (exchange i j s) = exchange i j (suppress keep s)"
  by (simp add: suppress_def exchange_def)

lemma suppress_yield:
  "suppress keep (yield sw cmp s) =
     (if keep \<lparr>array = arr s, swappedIndexes = sw, compareIndexes = cmp,
               comparisons = Some (stats_comparisons s), swaps = Some (stats_swaps s)\<rparr>
      then yield sw cmp (suppress keep s) else suppress keep s)"
  by (simp add: suppress_def yield_def)

abbreviation uncompared :: "'a step \<Rightarrow> bool" where
  "uncompared \<equiv> \<lambda>st. compareIndexes st = None"

abbreviation unswapped :: "'a step \<Rightarrow> bool" where
  "unswapped \<equiv> \<lambda>st. swappedIndexes st = Some []"

lemma suppress_selection_inner:
  "selection_inner False n i j minIndex previous (suppress uncompared s) =
     (fst (selection_inner True n i j minIndex previous s),
      suppress uncompared (snd (selection_inner True n i j minIndex previous s)))"
proof (induction "True" n i j minIndex previous s rule: selection_inner.induct)
  case (1 n i j minIndex previous s)
  show ?case
    using "1.hyps"
    by (simp add: selection_inner.simps [of True n i j minIndex previous s]
        selection_inner.simps [of False n i j minIndex previous "suppress uncompared s"]
        Let_def suppress_yield)
qed

lemma suppress_selection_outer:
  "selection_outer False n i previous (suppress uncompared s) =
     suppress uncompared (selection_outer True n i previous s)"
proof (induction "True" n i previous s rule: selection_outer.induct)
  case (1 n i previous s)
  obtain m s1 where inner: "selection_inner True n i (i + 1) i previous s = (m, s1)"
    by (cases "selection_inner True n i (i + 1) i previous s")
  have inner': "selection_inner False n i (i + 1) i previous (suppress uncompared s) =
      (m, suppress uncompared s1)"
    using inner by (simp add: suppress_selection_inner)
  show ?case
    using "1.hyps" [OF _ inner [symmetric]] inner inner'
    by (simp add: selection_outer.simps [of True n i previous s]
        selection_outer.simps [of False n i previous "suppress uncompared s"]
        Let_def suppress_yield)
qed

lemma selectionSort_suppress:
  "yielded (selectionSort a False) = filter uncompared (yielded (selectionSort a True))"
  using suppress_selection_outer [of "length a" 0 "[]" "initial a"]
  by (simp add: selectionSort_def Let_def yield_def)

lemma suppress_insertion_while:
  "insertion_while False key j1 previous (suppress uncompared s) =
     (fst (insertion_while True key j1 previous s),
      suppress uncompared (snd (insertion_while True key j1 previous s)))"
proof (induction "True" key j1 previous s rule: insertion_while.induct)
  case (1 key j1 previous s)
  show ?case
    using "1.hyps"
    by (simp add: insertion_while.simps [of True key j1 previous s]
        insertion_while.simps [of False key j1 previous "suppress uncompared s"]
        Let_def suppress_yield)
qed

lemma suppress_insertion_outer:
  "insertion_outer False n i previous (suppress uncompared s) =
     suppress uncompared (insertion_outer True n i previous s)"
proof (induction "True" n i previous s rule: insertion_outer.induct)
  case (1 n i previous s)
  obtain j1 p1 s1 where w: "insertion_while True (arr s ! i) i previous s = ((j1, p1), s1)"
    by (cases "insertion_while True (arr s ! i) i previous s") auto
  have w': "insertion_while False (arr s ! i) i previous (suppress uncompared s) =
      ((j1, p1), suppress uncompared s1)"
    using w by (simp add: suppress_insertion_while)
  show ?case
    using "1.hyps" [OF _ refl w [symmetric] refl refl refl] w w'
    by (simp add: insertion_outer.simps [of True n i previous s]
        insertion_outer.simps [of False n i previous "suppress uncompared s"]
        Let_def suppress_yield)
qed

lemma insertionSort_suppress:
  "yielded (insertionSort a False) = filter uncompared (yielded (insertionSort a True))"
  using suppress_insertion_outer [of "length a" 1 "[]" "initial a"]
  by (simp add: insertionSort_def Let_def yield_def)

lemma suppress_binary_search:
  "binary_search False key i left right1 insertIndex previous (suppress uncompared s) =
     (fst (binary_search True key i left right1 insertIndex previous s),
      suppress uncompared (snd (binary_search True key i left right1 insertIndex previous s)))"
proof (induction "True" key i left right1 insertIndex previous s rule: binary_search.induct)
  case (1 key i left right1 insertIndex previous s)
  show ?case
    using "1.hyps"
    by (simp add: binary_search.simps [of True key i left right1 insertIndex previous s]
        binary_search.simps [of False key i left right1 insertIndex previous "suppress uncompared s"]
        Let_def suppress_yield)
qed

lemma suppress_binary_shift:
  "binary_shift insertIndex k1 previous (suppress keep s) =
     (fst (binary_shift insertIndex k1 previous s),
      suppress keep (snd (binary_shift insertIndex k1 previous s)))"
proof (induction insertIndex k1 previous s rule: binary_shift.induct)
  case (1 insertIndex k1 previous s)
  show ?case
    using "1.IH"
    by (simp add: binary_shift.simps [of insertIndex k1 previous s]
        binary_shift.simps [of insertIndex k1 previous "suppress keep s"] Let_def)
qed

lemma suppress_binary_outer:
  "binary_outer False n i previous (suppress uncompared s) =
     suppress uncompared (binary_outer True n i previous s)"
proof (induction "True" n i previous s rule: binary_outer.induct)
  case (1 n i previous s)
  obtain ix s1 where b: "binary_search True (arr s ! i) i 0 i i previous s = (ix, s1)"
    by (cases "binary_search True (arr s ! i) i 0 i i previous s")
  obtain p2 s2 where sh: "binary_shift ix i previous s1 = (p2, s2)"
    by (cases "binary_shift ix i previous s1")
  have b': "binary_search False (arr s ! i) i 0 i i previous (suppress uncompared s) =
      (ix, suppress uncompared s1)"
    using b by (simp add: suppress_binary_search)
  have sh': "binary_shift ix i previous (suppress uncompared s1) = (p2, suppress uncompared s2)"
    using sh by (simp add: suppress_binary_shift)
  show ?case
    using "1.hyps" [OF _ refl b [symmetric] sh [symmetric] refl refl] b b' sh sh'
    by (simp add: binary_outer.simps [of True n i previous s]
        binary_outer.simps [of False n i previous "suppress uncompared s"]
        Let_def suppress_yield)
qed

lemma binaryInsertionSort_suppress:
  "yielded (binaryInsertionSort a False) =
     filter uncompared (yielded (binaryInsertionSort a True))"
  using suppress_binary_outer [of "length a" 1 "[]" "initial a"]
  by (simp add: binaryInsertionSort_def Let_def yield_def)

lemma suppress_lsd_count:
  "lsd_count exp' i count' (suppress unswapped s) =
     (fst (lsd_count exp' i count' s), suppress unswapped (snd (lsd_count exp' i count' s)))"
proof (induction exp' i count' s rule: lsd_count.induct)
  case (1 exp' i count' s)
  show ?case
    using "1.IH"
    by (simp add: lsd_count.simps [of exp' i count' s]
        lsd_count.simps [of exp' i count' "suppress unswapped s"] Let_def suppress_yield)
qed

lemma suppress_lsd_cumulate:
  "lsd_cumulate i count' (suppress unswapped s) =
     (fst (lsd_cumulate i count' s), suppress unswapped (snd (lsd_cumulate i count' s)))"
proof (induction i count' s rule: lsd_cumulate.induct)
  case (1 i count' s)
  show ?case
    using "1.IH"
    by (simp add: lsd_cumulate.simps [of i count' s]
        lsd_cumulate.simps [of i count' "suppress unswapped s"] Let_def suppress_yield)
qed

lemma suppress_lsd_place:
  "lsd_place exp' i1 count' out (suppress unswapped s) =
     (fst (lsd_place exp' i1 count' out s),
      suppress unswapped (snd (lsd_place exp' i1 count' out s)))"
proof (induction exp' i1 count' out s rule: lsd_place.induct)
  case (1 exp' i1 count' out s)
  show ?case
    using "1.IH"
    by (simp add: lsd_place.simps [of exp' i1 count' out s]
        lsd_place.simps [of exp' i1 count' out "suppress unswapped s"] Let_def suppress_yield)
qed

lemma suppress_lsd_copy:
  "lsd_copy False out i (suppress unswapped s) =
     suppress unswapped (lsd_copy True out i s)"
proof (induction "True" out i s rule: lsd_copy.induct)
  case (1 out i s)
  show ?case
    using "1.hyps"
    by (simp add: lsd_copy.simps [of True out i s]
        lsd_copy.simps [of False out i "suppress unswapped s"] Let_def suppress_yield)
qed

lemma suppress_lsd_while:
  "lsd_while False maxNum exp' (suppress unswapped s) =
     suppress unswapped (lsd_while True maxNum exp' s)"
proof (induction "True" maxNum exp' s rule: lsd_while.induct)
  case (1 maxNum exp' s)
  let ?n = "length (arr s)"
  obtain c1 s1 where a: "lsd_count exp' 0 (replicate 10 0) s = (c1, s1)"
    by (cases "lsd_count exp' 0 (replicate 10 0) s")
  obtain c2 s2 where b: "lsd_cumulate 1 c1 s1 = (c2, s2)"
    by (cases "lsd_cumulate 1 c1 s1")
  obtain out3 s3 where c: "lsd_place exp' (length (arr s2)) c2 (replicate ?n 0) s2 = (out3, s3)"
    by (cases "lsd_place exp' (length (arr s2)) c2 (replicate ?n 0) s2")
  have a': "lsd_count exp' 0 (replicate 10 0) (suppress unswapped s) = (c1, suppress unswapped s1)"
    using a by (simp add: suppress_lsd_count)
  have b': "lsd_cumulate 1 c1 (suppress unswapped s1) = (c2, suppress unswapped s2)"
    using b by (simp add: suppress_lsd_cumulate)
  have c': "lsd_place exp' (length (arr s2)) c2 (replicate ?n 0) (suppress unswapped s2) =
      (out3, suppress unswapped s3)"
    using c by (simp add: suppress_lsd_place)
  show ?case
    using "1.hyps" [OF _ refl refl a [symmetric] refl b [symmetric] refl c [symmetric] refl refl]
      a a' b b' c c'
    by (simp add: lsd_while.simps [of True maxNum exp' s]
        lsd_while.simps [of False maxNum exp' "suppress unswapped s"]
        Let_def suppress_lsd_copy)
qed

lemma lsdRadixSort_suppress:
  "yielded (lsdRadixSort a False) = filter unswapped (yielded (lsdRadixSort a True))"
  using suppress_lsd_while [of "fold max a 0" 1 "initial a"]
  by (simp add: lsdRadixSort_def Let_def yield_def)

text \<open>
  How each driver treats the flag, for every input.  Without the flag, selection sort,
  insertion sort and binary insertion sort yield exactly the steps of the run with the
  flag that carry no \<open>compareIndexes\<close> (their mutation steps and the terminal step), in the
  same order and with the same contents.  Merge, quick, bubble, cocktail shaker, gnome,
  comb, shell, heap, odd-even, bitonic and cycle sort have every \<open>yield\<close> under the test of
  the flag and yield no step at all (for gnome and cycle sort: when the run returns).
  Radix sort tests the flag only around its copy-back steps and its terminal step, and
  keeps the steps whose \<open>swappedIndexes\<close> is the empty list.
\<close>

theorem yieldCompare_false_steps:
  "yielded (selectionSort a False) =
     filter (\<lambda>st. compareIndexes st = None) (yielded (selectionSort a True))
   \<and> yielded (insertionSort a False) =
     filter (\<lambda>st. compareIndexes st = None) (yielded (insertionSort a True))
   \<and> yielded (binaryInsertionSort a False) =
     filter (\<lambda>st. compareIndexes st = None) (yielded (binaryInsertionSort a True))
   \<and> yielded (mergeSort a False) = []
   \<and> yielded (quickSort a False) = []
   \<and> yielded (bubbleSort a False) = []
   \<and> yielded (cocktailShakerSort a False) = []
   \<and> (\<forall>s. gnomeSort a False = Some s \<longrightarrow> yielded s = [])
   \<and> yielded (combSort a False) = []
   \<and> yielded (shellSort a False) = []
   \<and> yielded (heapSort a False) = []
   \<and> yielded (oddEvenSort a False) = []
   \<and> yielded (bitonicSort a up False) = []
   \<and> (\<forall>s. cycleSort a False = Some s \<longrightarrow> yielded s = [])
   \<and> yielded (lsdRadixSort a False) =
     filter (\<lambda>st. swappedIndexes st = Some []) (yielded (lsdRadixSort a True))"
proof -
  have me: "yielded (mergeSort a False) = []"
    by (simp add: mergeSort_def silent_mergeSortRecursive)
  have qu: "yielded (quickSort a False) = []"
    by (simp add: quickSort_def silent_quickSortRecursive)
  have bu: "yielded (bubbleSort a False) = []"
    by (simp add: bubbleSort_def silent_bubble_outer)
  have co: "yielded (cocktailShakerSort a False) = []"
    by (simp add: cocktailShakerSort_def silent_cocktail_while)
  have gn: "\<forall>s. gnomeSort a False = Some s \<longrightarrow> yielded s = []"
    using silent_gnome_loop [of False 0 "initial (map Some a)"]
    by (auto simp: gnomeSort_def)
  have cb: "yielded (combSort a False) = []"
    by (simp add: combSort_def silent_comb_while)
  have sh: "yielded (shellSort a False) = []"
    by (simp add: shellSort_def silent_shell_gaps)
  have he: "yielded (heapSort a False) = []"
    by (simp add: heapSort_def Let_def silent_heap_build silent_heap_extract)
  have oe: "yielded (oddEvenSort a False) = []"
    by (simp add: oddEvenSort_def silent_oddEven_while)
  have bi: "yielded (bitonicSort a up False) = []"
    by (simp add: bitonicSort_def silent_bitonicSortRec)
  have cy: "\<forall>s. cycleSort a False = Some s \<longrightarrow> yielded s = []"
    using silent_cycle_outer [of False "length a" 0 "initial a"]
    by (auto simp: cycleSort_def)
  from selectionSort_suppress [of a] insertionSort_suppress [of a]
    binaryInsertionSort_suppress [of a] lsdRadixSort_suppress [of a]
    me qu bu co gn cb sh he oe bi cy
  show ?thesis by blast
qed

theorem yieldCompare_false_steps_witness:
  "map swappedIndexes (yielded (selectionSort [1, 0] False)) = [Some [0, 1], None]
   \<and> yielded (heapSort [1, 0] False) = []
   \<and> gnomeSort [1, 0] False \<noteq> None
   \<and> yielded (the (gnomeSort [1, 0] False)) = []
   \<and> cycleSort [1, 0] False \<noteq> None
   \<and> yielded (the (cycleSort [1, 0] False)) = []"
proof -
  have g: "gnomeSort [1, 0] False \<noteq> None" by code_simp
  have c: "cycleSort [1, 0] False \<noteq> None" by code_simp
  have s: "map swappedIndexes (filter (\<lambda>st. compareIndexes st = None)
      (yielded (selectionSort [1, 0] True))) = [Some [0, 1], None]"
    by code_simp
  from yieldCompare_false_steps [of "[1, 0]" True] g c s show ?thesis
    by auto
qed

text \<open>
  C3: with \<open>yieldCompare = false\<close> a driver is to yield the mutation steps and the terminal
  step of the run with \<open>yieldCompare = true\<close>, without the comparison steps; the flag is
  documented as choosing whether comparisons are highlighted.  Selection sort does so: on
  \<open>[1, 0]\<close> it yields the exchange of positions 0 and 1 and the terminal step.  Bubble
  sort has the exchange step and the terminal step under the test of the flag as well: on
  \<open>[1, 0]\<close> it yields three steps with the flag, the second of them the exchange of
  positions 0 and 1, and no step at all without it, although it sorts the array.
\<close>

theorem bubbleSort_mutation_step_suppressed:
  "map swappedIndexes (yielded (bubbleSort [1, 0] True)) = [Some [], Some [0, 1], Some []]
   \<and> map compareIndexes (yielded (bubbleSort [1, 0] True)) = [Some [0, 1], Some [], Some []]
   \<and> yielded (bubbleSort [1, 0] False) = []
   \<and> arr (bubbleSort [1, 0] False) = [0, 1]
   \<and> map swappedIndexes (yielded (selectionSort [1, 0] False)) = [Some [0, 1], None]
   \<and> map compareIndexes (yielded (selectionSort [1, 0] False)) = [None, None]
   \<and> map array (yielded (selectionSort [1, 0] False)) = [[0, 1], [0, 1]]"
  by code_simp

section \<open>The counters and the flag\<close>

lemma swaps_count_comparison [simp]: "stats_swaps (count_comparison s) = stats_swaps s"
  by (simp add: count_comparison_def)

lemma swaps_yield [simp]: "stats_swaps (yield sw cmp s) = stats_swaps s"
  by (simp add: yield_def)

lemma swaps_yield_if [simp]: "stats_swaps (yield_if yc sw cmp s) = stats_swaps s"
  by (simp add: yield_if_def)

lemma swaps_store [simp]: "stats_swaps (store i v s) = stats_swaps s"
  by (simp add: store_def)






section \<open>What the drivers do to the array\<close>

lemma nth_swap:
  "i < length xs \<Longrightarrow> j < length xs \<Longrightarrow>
     swap xs i j ! k = (if k = j then xs ! i else if k = i then xs ! j else xs ! k)"
  by (simp add: swap_def nth_list_update)

lemma mset_swap_arr [simp]:
  "i < length xs \<Longrightarrow> j < length xs \<Longrightarrow> mset (swap xs i j) = mset xs"
  unfolding swap_def by (rule mset_swap)

lemma sorted_permutation_upt:
  assumes "mset xs = mset [0..<n]" and "sorted xs"
  shows "xs = [0..<n]"
  using properties_for_sort [OF assms] by simp

lemma sorted_adjacent:
  "(\<forall>k. k + 1 < length xs \<longrightarrow> xs ! k \<le> xs ! (k + 1)) \<Longrightarrow> sorted (xs :: nat list)"
  by (simp add: sorted_iff_nth_Suc)

subsection \<open>Comb sort\<close>

lemma mset_comb_pass:
  "mset (arr (snd (comb_pass yc gap i sorted' s))) = mset (arr s)"
  by (induction yc gap i sorted' s rule: comb_pass.induct)
    (subst comb_pass.simps, simp add: Let_def)

lemma comb_pass_False: "\<not> fst (comb_pass yc gap i False s)"
  by (induction yc gap i "False" s rule: comb_pass.induct)
    (subst comb_pass.simps, simp add: Let_def)

lemma comb_pass_unchanged:
  "fst (comb_pass yc gap i sorted' s) \<Longrightarrow> arr (snd (comb_pass yc gap i sorted' s)) = arr s"
proof (induction yc gap i sorted' s rule: comb_pass.induct)
  case (1 yc gap i sorted' s)
  then show ?case
    using comb_pass_False
    by (subst comb_pass.simps, subst (asm) (3) comb_pass.simps)
      (auto simp: Let_def split: if_splits)
qed

lemma comb_pass_ordered:
  "fst (comb_pass yc gap i sorted' s) \<Longrightarrow>
     \<forall>k. i \<le> k \<and> k + gap < length (arr s) \<longrightarrow> arr s ! k \<le> arr s ! (k + gap)"
proof (induction yc gap i sorted' s rule: comb_pass.induct)
  case (1 yc gap i sorted' s)
  show ?case
  proof (cases "i + gap < length (arr s)")
    case False
    then show ?thesis by simp
  next
    case True
    let ?s = "yield_if yc (Some []) (Some [i, i + gap]) (count_comparison s)"
    show ?thesis
    proof (cases "arr ?s ! i > arr ?s ! (i + gap)")
      case gt: True
      let ?t = "yield_if yc (Some [i, i + gap]) (Some []) (count_swaps 1 (exchange i (i + gap) ?s))"
      have unf: "comb_pass yc gap i sorted' s = comb_pass yc gap (i + 1) False ?t"
        using True gt by (subst comb_pass.simps) (simp add: Let_def)
      have "\<not> fst (comb_pass yc gap (i + 1) False ?t)"
        by (rule comb_pass_False)
      with "1.prems" unf show ?thesis by simp
    next
      case le: False
      have unf: "comb_pass yc gap i sorted' s = comb_pass yc gap (i + 1) sorted' ?s"
        using True le by (subst comb_pass.simps) (simp add: Let_def)
      from "1.IH"(2) [OF True refl refl le] "1.prems"
      have "\<forall>k. i + 1 \<le> k \<and> k + gap < length (arr s) \<longrightarrow> arr s ! k \<le> arr s ! (k + gap)"
        unfolding unf by simp
      moreover have "arr s ! i \<le> arr s ! (i + gap)" using le by simp
      ultimately show ?thesis
        by (metis Suc_eq_plus1 Suc_leI le_neq_implies_less)
    qed
  qed
qed

lemma mset_comb_while: "mset (arr (comb_while yc gap sorted' s)) = mset (arr s)"
proof (induction yc gap sorted' s rule: comb_while.induct)
  case (1 yc gap sorted' s)
  show ?case
  proof (cases sorted')
    case True
    then show ?thesis by (subst comb_while.simps) simp
  next
    case False
    define gap2 where "gap2 = (if gap * 10 div 13 \<le> 1 then 1 else gap * 10 div 13)"
    define sorted2 where "sorted2 = (gap * 10 div 13 \<le> 1)"
    obtain sorted3 s3 where p: "comb_pass yc gap2 0 sorted2 s = (sorted3, s3)"
      by (cases "comb_pass yc gap2 0 sorted2 s")
    have unf: "comb_while yc gap sorted' s = comb_while yc gap2 sorted3 s3"
      using False p
      by (subst comb_while.simps, cases "gap * 10 div 13 \<le> 1")
        (simp_all add: Let_def gap2_def sorted2_def)
    have "mset (arr (comb_while yc gap2 sorted3 s3)) = mset (arr s3)"
      by (rule "1.IH" [OF False refl refl _ p [symmetric]])
        (simp add: gap2_def sorted2_def)
    moreover have "mset (arr s3) = mset (arr s)"
      using mset_comb_pass [of yc gap2 0 sorted2 s] p by simp
    ultimately show ?thesis by (simp add: unf)
  qed
qed

lemma sorted_comb_while:
  "(sorted' \<longrightarrow> sorted (arr s)) \<Longrightarrow> sorted (arr (comb_while yc gap sorted' s))"
proof (induction yc gap sorted' s rule: comb_while.induct)
  case (1 yc gap sorted' s)
  show ?case
  proof (cases sorted')
    case True
    with "1.prems" show ?thesis by (subst comb_while.simps) simp
  next
    case False
    define gap2 where "gap2 = (if gap * 10 div 13 \<le> 1 then 1 else gap * 10 div 13)"
    define sorted2 where "sorted2 = (gap * 10 div 13 \<le> 1)"
    obtain sorted3 s3 where p: "comb_pass yc gap2 0 sorted2 s = (sorted3, s3)"
      by (cases "comb_pass yc gap2 0 sorted2 s")
    have unf: "comb_while yc gap sorted' s = comb_while yc gap2 sorted3 s3"
      using False p
      by (subst comb_while.simps, cases "gap * 10 div 13 \<le> 1")
        (simp_all add: Let_def gap2_def sorted2_def)
    have "sorted3 \<longrightarrow> sorted (arr s3)"
    proof
      assume s3: sorted3
      then have f: "fst (comb_pass yc gap2 0 sorted2 s)" using p by simp
      have "sorted2" using f comb_pass_False [of yc gap2 0 s] by (cases sorted2) auto
      then have g: "gap2 = 1" by (simp add: gap2_def sorted2_def)
      have same: "arr s3 = arr s" using comb_pass_unchanged [OF f] p by simp
      from comb_pass_ordered [OF f] g
      have "\<forall>k. k + 1 < length (arr s) \<longrightarrow> arr s ! k \<le> arr s ! (k + 1)" by simp
      then show "sorted (arr s3)" unfolding same by (rule sorted_adjacent)
    qed
    then have "sorted (arr (comb_while yc gap2 sorted3 s3))"
      by (rule "1.IH" [OF False refl refl _ p [symmetric], rotated])
        (simp add: gap2_def sorted2_def)
    then show ?thesis by (simp add: unf)
  qed
qed

lemma combSort_sorts:
  "mset (arr (combSort a yc)) = mset a \<and> sorted (arr (combSort a yc))"
  by (simp add: combSort_def Let_def mset_comb_while sorted_comb_while initial_def)

subsection \<open>Odd-even sort\<close>

lemma mset_oddEven_pass:
  "mset (arr (snd (oddEven_pass yc i sorted' s))) = mset (arr s)"
  by (induction yc i sorted' s rule: oddEven_pass.induct)
    (subst oddEven_pass.simps, simp add: Let_def)

lemma oddEven_pass_False: "\<not> fst (oddEven_pass yc i False s)"
  by (induction yc i "False" s rule: oddEven_pass.induct)
    (subst oddEven_pass.simps, simp add: Let_def)

lemma oddEven_pass_unchanged:
  "fst (oddEven_pass yc i sorted' s) \<Longrightarrow> arr (snd (oddEven_pass yc i sorted' s)) = arr s"
proof (induction yc i sorted' s rule: oddEven_pass.induct)
  case (1 yc i sorted' s)
  then show ?case
    using oddEven_pass_False
    by (subst oddEven_pass.simps, subst (asm) (3) oddEven_pass.simps)
      (auto simp: Let_def split: if_splits)
qed

lemma oddEven_pass_ordered:
  "fst (oddEven_pass yc i sorted' s) \<Longrightarrow>
     \<forall>k. k + 1 < length (arr s) \<longrightarrow> arr s ! (i + 2 * k) \<le> arr s ! (i + 2 * k + 1)
       \<or> length (arr s) \<le> i + 2 * k + 1"
proof (induction yc i sorted' s rule: oddEven_pass.induct)
  case (1 yc i sorted' s)
  show ?case
  proof (cases "i + 1 < length (arr s)")
    case False
    then show ?thesis by simp
  next
    case True
    let ?s = "yield_if yc (Some []) (Some [i, i + 1]) (count_comparison s)"
    show ?thesis
    proof (cases "arr ?s ! i > arr ?s ! (i + 1)")
      case gt: True
      let ?t = "yield_if yc (Some [i, i + 1]) (Some []) (count_swaps 1 (exchange i (i + 1) ?s))"
      have unf: "oddEven_pass yc i sorted' s = oddEven_pass yc (i + 2) False ?t"
        using True gt by (subst oddEven_pass.simps) (simp add: Let_def)
      have "\<not> fst (oddEven_pass yc (i + 2) False ?t)"
        by (rule oddEven_pass_False)
      with "1.prems" unf show ?thesis by simp
    next
      case le: False
      have unf: "oddEven_pass yc i sorted' s = oddEven_pass yc (i + 2) sorted' ?s"
        using True le by (subst oddEven_pass.simps) (simp add: Let_def)
      from "1.IH"(2) [OF True refl refl le] "1.prems"
      have ih: "\<forall>k. k + 1 < length (arr s) \<longrightarrow>
          arr s ! (i + 2 + 2 * k) \<le> arr s ! (i + 2 + 2 * k + 1)
          \<or> length (arr s) \<le> i + 2 + 2 * k + 1"
        unfolding unf by simp
      have first: "arr s ! i \<le> arr s ! (i + 1)" using le by simp
      show ?thesis
      proof (intro allI impI)
        fix k assume k: "k + 1 < length (arr s)"
        show "arr s ! (i + 2 * k) \<le> arr s ! (i + 2 * k + 1) \<or> length (arr s) \<le> i + 2 * k + 1"
        proof (cases k)
          case 0
          with first show ?thesis by simp
        next
          case (Suc k')
          with k ih [rule_format, of k'] show ?thesis by simp
        qed
      qed
    qed
  qed
qed

lemma mset_oddEven_while: "mset (arr (oddEven_while yc sorted' s)) = mset (arr s)"
proof (induction yc sorted' s rule: oddEven_while.induct)
  case (1 yc sorted' s)
  show ?case
  proof (cases sorted')
    case True
    then show ?thesis by (subst oddEven_while.simps) simp
  next
    case False
    obtain sorted1 s1 where p1: "oddEven_pass yc 1 True s = (sorted1, s1)"
      by (cases "oddEven_pass yc 1 True s")
    obtain sorted2 s2 where p2: "oddEven_pass yc 0 sorted1 s1 = (sorted2, s2)"
      by (cases "oddEven_pass yc 0 sorted1 s1")
    have m1: "mset (arr s1) = mset (arr s)" using mset_oddEven_pass [of yc 1 True s] p1 by simp
    have m2: "mset (arr s2) = mset (arr s1)" using mset_oddEven_pass [of yc 0 sorted1 s1] p2 by simp
    have "mset (arr (oddEven_while yc sorted2 s2)) = mset (arr s2)"
      by (rule "1.IH" [OF False p1 [symmetric] p2 [symmetric]])
    with False p1 p2 m1 m2 show ?thesis
      by (subst oddEven_while.simps) simp
  qed
qed

lemma sorted_oddEven_while:
  "(sorted' \<longrightarrow> sorted (arr s)) \<Longrightarrow> sorted (arr (oddEven_while yc sorted' s))"
proof (induction yc sorted' s rule: oddEven_while.induct)
  case (1 yc sorted' s)
  show ?case
  proof (cases sorted')
    case True
    with "1.prems" show ?thesis by (subst oddEven_while.simps) simp
  next
    case False
    obtain sorted1 s1 where p1: "oddEven_pass yc 1 True s = (sorted1, s1)"
      by (cases "oddEven_pass yc 1 True s")
    obtain sorted2 s2 where p2: "oddEven_pass yc 0 sorted1 s1 = (sorted2, s2)"
      by (cases "oddEven_pass yc 0 sorted1 s1")
    have "sorted2 \<longrightarrow> sorted (arr s2)"
    proof
      assume sorted2
      then have f2: "fst (oddEven_pass yc 0 sorted1 s1)" using p2 by simp
      have s1: "sorted1" using f2 oddEven_pass_False [of yc 0 s1] by (cases sorted1) auto
      then have f1: "fst (oddEven_pass yc 1 True s)" using p1 by simp
      have same2: "arr s2 = arr s1" using oddEven_pass_unchanged [OF f2] p2 by simp
      have same1: "arr s1 = arr s" using oddEven_pass_unchanged [OF f1] p1 by simp
      note even = oddEven_pass_ordered [OF f2, unfolded same1, rule_format]
      note odd = oddEven_pass_ordered [OF f1, rule_format]
      have "\<forall>k. k + 1 < length (arr s) \<longrightarrow> arr s ! k \<le> arr s ! (k + 1)"
      proof (intro allI impI)
        fix k assume k: "k + 1 < length (arr s)"
        show "arr s ! k \<le> arr s ! (k + 1)"
        proof (cases "even k")
          case True
          then obtain j where "k = 2 * j" by (auto elim: evenE)
          with even [of j] k show ?thesis by auto
        next
          case False
          then obtain j where "k = 2 * j + 1" by (auto elim: oddE)
          with odd [of j] k show ?thesis by auto
        qed
      qed
      then show "sorted (arr s2)" unfolding same2 same1 by (rule sorted_adjacent)
    qed
    then have "sorted (arr (oddEven_while yc sorted2 s2))"
      by (rule "1.IH" [OF False p1 [symmetric] p2 [symmetric]])
    with False p1 p2 show ?thesis
      by (subst oddEven_while.simps) simp
  qed
qed

lemma oddEvenSort_sorts:
  "mset (arr (oddEvenSort a yc)) = mset a \<and> sorted (arr (oddEvenSort a yc))"
  by (simp add: oddEvenSort_def Let_def mset_oddEven_while sorted_oddEven_while initial_def)

subsection \<open>Positions that hold their final element\<close>

definition suffix_settled :: "nat \<Rightarrow> nat list \<Rightarrow> bool" where
  "suffix_settled e xs \<longleftrightarrow> (\<forall>p q. p \<le> q \<and> e \<le> q \<and> q < length xs \<longrightarrow> xs ! p \<le> xs ! q)"

definition prefix_settled :: "nat \<Rightarrow> nat list \<Rightarrow> bool" where
  "prefix_settled b xs \<longleftrightarrow> (\<forall>p q. p \<le> q \<and> p < b \<and> q < length xs \<longrightarrow> xs ! p \<le> xs ! q)"

lemma suffix_settled_swap:
  "suffix_settled e xs \<Longrightarrow> i < e \<Longrightarrow> j < e \<Longrightarrow> e \<le> length xs \<Longrightarrow>
     suffix_settled e (swap xs i j)"
  unfolding suffix_settled_def
  by (auto simp: nth_swap)

lemma prefix_settled_swap:
  "prefix_settled b xs \<Longrightarrow> b \<le> i \<Longrightarrow> b \<le> j \<Longrightarrow> i < length xs \<Longrightarrow> j < length xs \<Longrightarrow>
     prefix_settled b (swap xs i j)"
  unfolding prefix_settled_def
  by (auto simp: nth_swap)

lemma suffix_settled_sorted: "suffix_settled 1 xs \<Longrightarrow> sorted xs"
  unfolding suffix_settled_def
  by (auto simp: sorted_iff_nth_Suc)

subsection \<open>Bubble sort\<close>

lemma length_bubble_inner [simp]:
  "length (arr (snd (bubble_inner yc n i j sw s))) = length (arr s)"
  by (induction yc n i j sw s rule: bubble_inner.induct)
    (subst bubble_inner.simps, simp add: Let_def)

lemma mset_bubble_inner:
  "n \<le> length (arr s) \<Longrightarrow> mset (arr (snd (bubble_inner yc n i j sw s))) = mset (arr s)"
  by (induction yc n i j sw s rule: bubble_inner.induct)
    (subst bubble_inner.simps, simp add: Let_def)

lemma suffix_bubble_inner:
  "n \<le> length (arr s) \<Longrightarrow> n - i \<le> e \<Longrightarrow> e \<le> length (arr s) \<Longrightarrow> suffix_settled e (arr s) \<Longrightarrow>
     suffix_settled e (arr (snd (bubble_inner yc n i j sw s)))"
  by (induction yc n i j sw s rule: bubble_inner.induct)
    (subst bubble_inner.simps, simp add: Let_def suffix_settled_swap)

lemma bubble_inner_True: "fst (bubble_inner yc n i j True s)"
  by (induction yc n i j "True" s rule: bubble_inner.induct)
    (subst bubble_inner.simps, simp add: Let_def)

lemma bubble_inner_max:
  "n \<le> length (arr s) \<Longrightarrow> j + i < n \<Longrightarrow> \<forall>k<j. arr s ! k \<le> arr s ! j \<Longrightarrow>
     \<forall>k < n - 1 - i. arr (snd (bubble_inner yc n i j sw s)) ! k
        \<le> arr (snd (bubble_inner yc n i j sw s)) ! (n - 1 - i)"
proof (induction yc n i j sw s rule: bubble_inner.induct)
  case (1 yc n i j sw s)
  show ?case
  proof (cases "j + 1 + i < n")
    case False
    with "1.prems" have "j = n - 1 - i" by simp
    with False "1.prems" show ?thesis by (subst (1 2) bubble_inner.simps) simp
  next
    case True
    let ?s = "yield_if yc (Some []) (Some [j, j + 1]) (count_comparison s)"
    show ?thesis
    proof (cases "arr ?s ! j > arr ?s ! (j + 1)")
      case gt: True
      let ?t = "yield_if yc (Some [j, j + 1]) (Some []) (count_swaps 1 (exchange j (j + 1) ?s))"
      have unf: "bubble_inner yc n i j sw s = bubble_inner yc n i (j + 1) True ?t"
        using True gt by (subst bubble_inner.simps) (simp add: Let_def)
      have "\<forall>k<j + 1. arr ?t ! k \<le> arr ?t ! (j + 1)"
        using "1.prems" True gt by (auto simp: nth_swap less_Suc_eq)
      from "1.IH"(1) [OF True refl refl gt refl refl refl _ _ this] "1.prems" True
      show ?thesis unfolding unf by simp
    next
      case le: False
      have unf: "bubble_inner yc n i j sw s = bubble_inner yc n i (j + 1) sw ?s"
        using True le by (subst bubble_inner.simps) (simp add: Let_def)
      have "\<forall>k<j + 1. arr ?s ! k \<le> arr ?s ! (j + 1)"
        using "1.prems" True le by (auto simp: less_Suc_eq intro: order_trans)
      from "1.IH"(2) [OF True refl refl le _ _ this] "1.prems" True
      show ?thesis unfolding unf by simp
    qed
  qed
qed

lemma bubble_inner_unswapped:
  "\<not> fst (bubble_inner yc n i j sw s) \<Longrightarrow>
     arr (snd (bubble_inner yc n i j sw s)) = arr s
     \<and> (\<forall>k. j \<le> k \<and> k + 1 + i < n \<longrightarrow> arr s ! k \<le> arr s ! (k + 1))"
proof (induction yc n i j sw s rule: bubble_inner.induct)
  case (1 yc n i j sw s)
  show ?case
  proof (cases "j + 1 + i < n")
    case False
    then show ?thesis by (subst bubble_inner.simps) simp
  next
    case True
    let ?s = "yield_if yc (Some []) (Some [j, j + 1]) (count_comparison s)"
    show ?thesis
    proof (cases "arr ?s ! j > arr ?s ! (j + 1)")
      case gt: True
      let ?t = "yield_if yc (Some [j, j + 1]) (Some []) (count_swaps 1 (exchange j (j + 1) ?s))"
      have unf: "bubble_inner yc n i j sw s = bubble_inner yc n i (j + 1) True ?t"
        using True gt by (subst bubble_inner.simps) (simp add: Let_def)
      with "1.prems" bubble_inner_True [of yc n i "j + 1" ?t] show ?thesis by simp
    next
      case le: False
      have unf: "bubble_inner yc n i j sw s = bubble_inner yc n i (j + 1) sw ?s"
        using True le by (subst bubble_inner.simps) (simp add: Let_def)
      from "1.IH"(2) [OF True refl refl le] "1.prems"
      have ih: "arr (snd (bubble_inner yc n i (j + 1) sw ?s)) = arr s"
        "\<forall>k. j + 1 \<le> k \<and> k + 1 + i < n \<longrightarrow> arr s ! k \<le> arr s ! (k + 1)"
        unfolding unf by simp_all
      have first: "arr s ! j \<le> arr s ! (j + 1)" using le by simp
      have "\<forall>k. j \<le> k \<and> k + 1 + i < n \<longrightarrow> arr s ! k \<le> arr s ! (k + 1)"
      proof (intro allI impI)
        fix k assume "j \<le> k \<and> k + 1 + i < n"
        with first ih(2) [rule_format, of k] show "arr s ! k \<le> arr s ! (k + 1)"
          by (cases "k = j") auto
      qed
      with ih(1) show ?thesis unfolding unf by simp
    qed
  qed
qed

lemma mset_bubble_outer:
  "n \<le> length (arr s) \<Longrightarrow> mset (arr (bubble_outer yc n i s)) = mset (arr s)"
proof (induction yc n i s rule: bubble_outer.induct)
  case (1 yc n i s)
  obtain sw s1 where p: "bubble_inner yc n i 0 False s = (sw, s1)"
    by (cases "bubble_inner yc n i 0 False s")
  have s1: "s1 = snd (bubble_inner yc n i 0 False s)" using p by simp
  have m: "mset (arr s1) = mset (arr s)" and l: "length (arr s1) = length (arr s)"
    unfolding s1 using mset_bubble_inner [OF "1.prems", of yc i 0 False] by simp_all
  show ?case
    using "1.IH" [OF _ p [symmetric]] "1.prems" p m l
    by (subst bubble_outer.simps) auto
qed

lemma sorted_bubble_outer:
  "n = length (arr s) \<Longrightarrow> i \<le> n - 1 \<Longrightarrow> suffix_settled (n - i) (arr s) \<Longrightarrow>
     sorted (arr (bubble_outer yc n i s))"
proof (induction yc n i s rule: bubble_outer.induct)
  case (1 yc n i s)
  show ?case
  proof (cases "i + 1 < n")
    case False
    with "1.prems" have "arr s = [] \<or> n - i = 1" by (cases "arr s") auto
    then have "sorted (arr s)"
      using "1.prems" by (auto intro: suffix_settled_sorted)
    with False show ?thesis by (subst bubble_outer.simps) simp
  next
    case True
    obtain sw s1 where p: "bubble_inner yc n i 0 False s = (sw, s1)"
      by (cases "bubble_inner yc n i 0 False s")
    have s1: "s1 = snd (bubble_inner yc n i 0 False s)" using p by simp
    have l: "length (arr s1) = n"
      unfolding s1 using "1.prems" by simp
    have suf: "suffix_settled (n - i) (arr s1)"
      using suffix_bubble_inner [of n s i "n - i" yc 0 False] p "1.prems" by simp
    have mx: "\<forall>k < n - 1 - i. arr s1 ! k \<le> arr s1 ! (n - 1 - i)"
      using bubble_inner_max [of n s 0 i yc False] p "1.prems" True by simp
    have suf': "suffix_settled (n - (i + 1)) (arr s1)"
      unfolding suffix_settled_def
    proof (intro allI impI)
      fix p q assume a: "p \<le> q \<and> n - (i + 1) \<le> q \<and> q < length (arr s1)"
      show "arr s1 ! p \<le> arr s1 ! q"
      proof (cases "q = n - 1 - i")
        case True
        with a mx show ?thesis by (cases "p = q") auto
      next
        case False
        with a have "n - i \<le> q" by auto
        with a suf show ?thesis unfolding suffix_settled_def by auto
      qed
    qed
    show ?thesis
    proof (cases sw)
      case False
      then have f: "\<not> fst (bubble_inner yc n i 0 False s)" using p by simp
      from bubble_inner_unswapped [OF f] p
      have same: "arr s1 = arr s"
        and adj: "\<forall>k. k + 1 + i < n \<longrightarrow> arr s ! k \<le> arr s ! (k + 1)" by simp_all
      have "\<forall>k. k + 1 < length (arr s) \<longrightarrow> arr s ! k \<le> arr s ! (k + 1)"
      proof (intro allI impI)
        fix k assume k: "k + 1 < length (arr s)"
        show "arr s ! k \<le> arr s ! (k + 1)"
        proof (cases "k + 1 + i < n")
          case True
          with adj show ?thesis by simp
        next
          case False
          with k "1.prems" show ?thesis unfolding suffix_settled_def by auto
        qed
      qed
      then have "sorted (arr s)" by (rule sorted_adjacent)
      with True False p same show ?thesis by (subst bubble_outer.simps) simp
    next
      case sw: True
      have "sorted (arr (bubble_outer yc n (i + 1) s1))"
        using "1.IH" [OF True p [symmetric]] sw l True suf' by simp
      with True sw p show ?thesis by (subst bubble_outer.simps) simp
    qed
  qed
qed

lemma suffix_settled_length: "suffix_settled (length xs) xs"
  by (simp add: suffix_settled_def)

lemma bubbleSort_sorts:
  "mset (arr (bubbleSort a yc)) = mset a \<and> sorted (arr (bubbleSort a yc))"
  using sorted_bubble_outer [of "length a" "initial a" 0 yc]
    mset_bubble_outer [of "length a" "initial a" yc 0]
  by (simp add: bubbleSort_def Let_def initial_def suffix_settled_length)

subsection \<open>Cocktail shaker sort\<close>

lemma length_cocktail_forward [simp]:
  "length (arr (snd (cocktail_forward yc e i sw s))) = length (arr s)"
  by (induction yc e i sw s rule: cocktail_forward.induct)
    (subst cocktail_forward.simps, simp add: Let_def)

lemma mset_cocktail_forward:
  "e < length (arr s) \<Longrightarrow> mset (arr (snd (cocktail_forward yc e i sw s))) = mset (arr s)"
  by (induction yc e i sw s rule: cocktail_forward.induct)
    (subst cocktail_forward.simps, simp add: Let_def)

lemma suffix_cocktail_forward:
  "e < length (arr s) \<Longrightarrow> e < b \<Longrightarrow> b \<le> length (arr s) \<Longrightarrow> suffix_settled b (arr s) \<Longrightarrow>
     suffix_settled b (arr (snd (cocktail_forward yc e i sw s)))"
  by (induction yc e i sw s rule: cocktail_forward.induct)
    (subst cocktail_forward.simps, simp add: Let_def suffix_settled_swap)

lemma prefix_cocktail_forward:
  "e < length (arr s) \<Longrightarrow> b \<le> i \<Longrightarrow> prefix_settled b (arr s) \<Longrightarrow>
     prefix_settled b (arr (snd (cocktail_forward yc e i sw s)))"
  by (induction yc e i sw s rule: cocktail_forward.induct)
    (subst cocktail_forward.simps, simp add: Let_def prefix_settled_swap)

lemma cocktail_forward_True: "fst (cocktail_forward yc e i True s)"
  by (induction yc e i "True" s rule: cocktail_forward.induct)
    (subst cocktail_forward.simps, simp add: Let_def)

lemma cocktail_forward_max:
  "e < length (arr s) \<Longrightarrow> i \<le> e \<Longrightarrow> \<forall>k. b \<le> k \<and> k < i \<longrightarrow> arr s ! k \<le> arr s ! i \<Longrightarrow> b \<le> i \<Longrightarrow>
     \<forall>k. b \<le> k \<and> k < e \<longrightarrow> arr (snd (cocktail_forward yc e i sw s)) ! k
        \<le> arr (snd (cocktail_forward yc e i sw s)) ! e"
proof (induction yc e i sw s rule: cocktail_forward.induct)
  case (1 yc e i sw s)
  show ?case
  proof (cases "i < e")
    case False
    with "1.prems" have "i = e" by simp
    with False "1.prems" show ?thesis by (subst (1 2) cocktail_forward.simps) simp
  next
    case True
    let ?s = "yield_if yc (Some []) (Some [i, i + 1]) (count_comparison s)"
    show ?thesis
    proof (cases "arr ?s ! i > arr ?s ! (i + 1)")
      case gt: True
      let ?t = "yield_if yc (Some [i, i + 1]) (Some []) (count_swaps 1 (exchange i (i + 1) ?s))"
      have unf: "cocktail_forward yc e i sw s = cocktail_forward yc e (i + 1) True ?t"
        using True gt by (subst cocktail_forward.simps) (simp add: Let_def)
      have "\<forall>k. b \<le> k \<and> k < i + 1 \<longrightarrow> arr ?t ! k \<le> arr ?t ! (i + 1)"
        using "1.prems" True gt by (auto simp: nth_swap less_Suc_eq)
      from "1.IH"(1) [OF True refl refl gt refl refl refl _ _ this] "1.prems" True
      show ?thesis unfolding unf by simp
    next
      case le: False
      have unf: "cocktail_forward yc e i sw s = cocktail_forward yc e (i + 1) sw ?s"
        using True le by (subst cocktail_forward.simps) (simp add: Let_def)
      have "\<forall>k. b \<le> k \<and> k < i + 1 \<longrightarrow> arr ?s ! k \<le> arr ?s ! (i + 1)"
        using "1.prems" True le by (auto simp: less_Suc_eq intro: order_trans)
      from "1.IH"(2) [OF True refl refl le _ _ this] "1.prems" True
      show ?thesis unfolding unf by simp
    qed
  qed
qed

lemma cocktail_forward_unswapped:
  "\<not> fst (cocktail_forward yc e i sw s) \<Longrightarrow>
     arr (snd (cocktail_forward yc e i sw s)) = arr s
     \<and> (\<forall>k. i \<le> k \<and> k < e \<longrightarrow> arr s ! k \<le> arr s ! (k + 1))"
proof (induction yc e i sw s rule: cocktail_forward.induct)
  case (1 yc e i sw s)
  show ?case
  proof (cases "i < e")
    case False
    then show ?thesis by (subst cocktail_forward.simps) simp
  next
    case True
    let ?s = "yield_if yc (Some []) (Some [i, i + 1]) (count_comparison s)"
    show ?thesis
    proof (cases "arr ?s ! i > arr ?s ! (i + 1)")
      case gt: True
      let ?t = "yield_if yc (Some [i, i + 1]) (Some []) (count_swaps 1 (exchange i (i + 1) ?s))"
      have unf: "cocktail_forward yc e i sw s = cocktail_forward yc e (i + 1) True ?t"
        using True gt by (subst cocktail_forward.simps) (simp add: Let_def)
      with "1.prems" cocktail_forward_True [of yc e "i + 1" ?t] show ?thesis by simp
    next
      case le: False
      have unf: "cocktail_forward yc e i sw s = cocktail_forward yc e (i + 1) sw ?s"
        using True le by (subst cocktail_forward.simps) (simp add: Let_def)
      from "1.IH"(2) [OF True refl refl le] "1.prems"
      have ih: "arr (snd (cocktail_forward yc e (i + 1) sw ?s)) = arr s"
        "\<forall>k. i + 1 \<le> k \<and> k < e \<longrightarrow> arr s ! k \<le> arr s ! (k + 1)"
        unfolding unf by simp_all
      have first: "arr s ! i \<le> arr s ! (i + 1)" using le by simp
      have "\<forall>k. i \<le> k \<and> k < e \<longrightarrow> arr s ! k \<le> arr s ! (k + 1)"
      proof (intro allI impI)
        fix k assume "i \<le> k \<and> k < e"
        with first ih(2) [rule_format, of k] show "arr s ! k \<le> arr s ! (k + 1)"
          by (cases "k = i") auto
      qed
      with ih(1) show ?thesis unfolding unf by simp
    qed
  qed
qed

lemma length_cocktail_backward [simp]:
  "length (arr (snd (cocktail_backward yc b i sw s))) = length (arr s)"
  by (induction yc b i sw s rule: cocktail_backward.induct)
    (subst cocktail_backward.simps, simp add: Let_def)

lemma mset_cocktail_backward:
  "i < length (arr s) \<Longrightarrow> mset (arr (snd (cocktail_backward yc b i sw s))) = mset (arr s)"
  by (induction yc b i sw s rule: cocktail_backward.induct)
    (subst cocktail_backward.simps, simp add: Let_def)

lemma suffix_cocktail_backward:
  "i < e \<Longrightarrow> e \<le> length (arr s) \<Longrightarrow> suffix_settled e (arr s) \<Longrightarrow>
     suffix_settled e (arr (snd (cocktail_backward yc b i sw s)))"
  by (induction yc b i sw s rule: cocktail_backward.induct)
    (subst cocktail_backward.simps, simp add: Let_def suffix_settled_swap)

lemma prefix_cocktail_backward:
  "i < length (arr s) \<Longrightarrow> p \<le> b \<Longrightarrow> prefix_settled p (arr s) \<Longrightarrow>
     prefix_settled p (arr (snd (cocktail_backward yc b i sw s)))"
  by (induction yc b i sw s rule: cocktail_backward.induct)
    (subst cocktail_backward.simps, simp add: Let_def prefix_settled_swap)

lemma cocktail_backward_True: "fst (cocktail_backward yc b i True s)"
  by (induction yc b i "True" s rule: cocktail_backward.induct)
    (subst cocktail_backward.simps, simp add: Let_def)

lemma cocktail_backward_min:
  "e < length (arr s) \<Longrightarrow> b \<le> i \<Longrightarrow> i \<le> e \<Longrightarrow>
     \<forall>k. i < k \<and> k \<le> e \<longrightarrow> arr s ! i \<le> arr s ! k \<Longrightarrow>
     \<forall>k. b < k \<and> k \<le> e \<longrightarrow> arr (snd (cocktail_backward yc b i sw s)) ! b
        \<le> arr (snd (cocktail_backward yc b i sw s)) ! k"
proof (induction yc b i sw s rule: cocktail_backward.induct)
  case (1 yc b i sw s)
  show ?case
  proof (cases "i > b")
    case False
    with "1.prems" have "i = b" by simp
    with False "1.prems" show ?thesis by (subst (1 2) cocktail_backward.simps) simp
  next
    case True
    let ?s = "yield_if yc (Some []) (Some [i - 1, i]) (count_comparison s)"
    show ?thesis
    proof (cases "arr ?s ! (i - 1) > arr ?s ! i")
      case gt: True
      let ?t = "yield_if yc (Some [i - 1, i]) (Some []) (count_swaps 1 (exchange (i - 1) i ?s))"
      have unf: "cocktail_backward yc b i sw s = cocktail_backward yc b (i - 1) True ?t"
        using True gt by (subst cocktail_backward.simps) (simp add: Let_def)
      have "\<forall>k. i - 1 < k \<and> k \<le> e \<longrightarrow> arr ?t ! (i - 1) \<le> arr ?t ! k"
      proof (intro allI impI)
        fix k assume k: "i - 1 < k \<and> k \<le> e"
        show "arr ?t ! (i - 1) \<le> arr ?t ! k"
        proof (cases "k = i")
          case True
          with gt \<open>b < i\<close> "1.prems" show ?thesis by (simp add: nth_swap)
        next
          case False
          with k have "i < k" by auto
          with k "1.prems" \<open>b < i\<close> show ?thesis by (simp add: nth_swap)
        qed
      qed
      from "1.IH"(1) [OF True refl refl gt refl refl refl _ _ _ this] "1.prems" True
      show ?thesis unfolding unf by simp
    next
      case le: False
      have unf: "cocktail_backward yc b i sw s = cocktail_backward yc b (i - 1) sw ?s"
        using True le by (subst cocktail_backward.simps) (simp add: Let_def)
      have "\<forall>k. i - 1 < k \<and> k \<le> e \<longrightarrow> arr ?s ! (i - 1) \<le> arr ?s ! k"
      proof (intro allI impI)
        fix k assume k: "i - 1 < k \<and> k \<le> e"
        show "arr ?s ! (i - 1) \<le> arr ?s ! k"
        proof (cases "k = i")
          case True
          with le show ?thesis by simp
        next
          case False
          with k have "i < k" by auto
          with k "1.prems" have "arr s ! i \<le> arr s ! k" by simp
          with le show ?thesis by simp
        qed
      qed
      from "1.IH"(2) [OF True refl refl le _ _ _ this] "1.prems" True
      show ?thesis unfolding unf by simp
    qed
  qed
qed

lemma cocktail_backward_unswapped:
  "\<not> fst (cocktail_backward yc b i sw s) \<Longrightarrow>
     arr (snd (cocktail_backward yc b i sw s)) = arr s
     \<and> (\<forall>k. b \<le> k \<and> k < i \<longrightarrow> arr s ! k \<le> arr s ! (k + 1))"
proof (induction yc b i sw s rule: cocktail_backward.induct)
  case (1 yc b i sw s)
  show ?case
  proof (cases "i > b")
    case False
    then show ?thesis by (subst cocktail_backward.simps) simp
  next
    case True
    let ?s = "yield_if yc (Some []) (Some [i - 1, i]) (count_comparison s)"
    show ?thesis
    proof (cases "arr ?s ! (i - 1) > arr ?s ! i")
      case gt: True
      let ?t = "yield_if yc (Some [i - 1, i]) (Some []) (count_swaps 1 (exchange (i - 1) i ?s))"
      have unf: "cocktail_backward yc b i sw s = cocktail_backward yc b (i - 1) True ?t"
        using True gt by (subst cocktail_backward.simps) (simp add: Let_def)
      with "1.prems" cocktail_backward_True [of yc b "i - 1" ?t] show ?thesis by simp
    next
      case le: False
      have unf: "cocktail_backward yc b i sw s = cocktail_backward yc b (i - 1) sw ?s"
        using True le by (subst cocktail_backward.simps) (simp add: Let_def)
      from "1.IH"(2) [OF True refl refl le] "1.prems"
      have ih: "arr (snd (cocktail_backward yc b (i - 1) sw ?s)) = arr s"
        "\<forall>k. b \<le> k \<and> k < i - 1 \<longrightarrow> arr s ! k \<le> arr s ! (k + 1)"
        unfolding unf by simp_all
      have first: "arr s ! (i - 1) \<le> arr s ! i" using le by simp
      have "\<forall>k. b \<le> k \<and> k < i \<longrightarrow> arr s ! k \<le> arr s ! (k + 1)"
      proof (intro allI impI)
        fix k assume "b \<le> k \<and> k < i"
        with first ih(2) [rule_format, of k] True show "arr s ! k \<le> arr s ! (k + 1)"
          by (cases "k = i - 1") auto
      qed
      with ih(1) show ?thesis unfolding unf by simp
    qed
  qed
qed

lemma mset_cocktail_while:
  "e < length (arr s) \<Longrightarrow> mset (arr (cocktail_while yc b e s)) = mset (arr s)"
proof (induction yc b e s rule: cocktail_while.induct)
  case (1 yc b e s)
  obtain sw1 s1 where f: "cocktail_forward yc e b False s = (sw1, s1)"
    by (cases "cocktail_forward yc e b False s")
  obtain sw2 s2 where k: "cocktail_backward yc b (e - 1) False s1 = (sw2, s2)"
    by (cases "cocktail_backward yc b (e - 1) False s1")
  have s1: "s1 = snd (cocktail_forward yc e b False s)" using f by simp
  have s2: "s2 = snd (cocktail_backward yc b (e - 1) False s1)" using k by simp
  have l1: "length (arr s1) = length (arr s)" unfolding s1 by simp
  have m1: "mset (arr s1) = mset (arr s)"
    unfolding s1 using "1.prems" by (simp add: mset_cocktail_forward)
  have l2: "length (arr s2) = length (arr s)" unfolding s2 using l1 by simp
  have m2: "mset (arr s2) = mset (arr s)"
    unfolding s2 using "1.prems" l1 m1 by (simp add: mset_cocktail_backward)
  show ?case
  proof (cases "b < e \<and> sw1 \<and> sw2")
    case False
    with f k m1 m2 show ?thesis
      by (subst cocktail_while.simps) (auto simp: Let_def)
  next
    case True
    from "1.IH" [OF _ f [symmetric] _ refl k [symmetric]] True "1.prems" l2
    have "mset (arr (cocktail_while yc (b + 1) (e - 1) s2)) = mset (arr s2)" by simp
    with True f k m2 show ?thesis
      by (subst cocktail_while.simps) (simp add: Let_def)
  qed
qed

lemma sorted_cocktail_while:
  "e < length (arr s) \<Longrightarrow> prefix_settled b (arr s) \<Longrightarrow> suffix_settled (e + 1) (arr s) \<Longrightarrow>
     sorted (arr (cocktail_while yc b e s))"
proof (induction yc b e s rule: cocktail_while.induct)
  case (1 yc b e s)
  note pre = "1.prems"(2) [unfolded prefix_settled_def, rule_format]
  note suf = "1.prems"(3) [unfolded suffix_settled_def, rule_format]
  show ?case
  proof (cases "b < e")
    case False
    have "\<forall>k. k + 1 < length (arr s) \<longrightarrow> arr s ! k \<le> arr s ! (k + 1)"
    proof (intro allI impI)
      fix k assume k: "k + 1 < length (arr s)"
      show "arr s ! k \<le> arr s ! (k + 1)"
      proof (cases "k < b")
        case True
        with k show ?thesis by (intro pre) simp
      next
        case nb: False
        with False k show ?thesis by (intro suf) simp
      qed
    qed
    then have "sorted (arr s)" by (rule sorted_adjacent)
    with False show ?thesis by (subst cocktail_while.simps) simp
  next
    case True
    obtain sw1 s1 where f: "cocktail_forward yc e b False s = (sw1, s1)"
      by (cases "cocktail_forward yc e b False s")
    have s1: "s1 = snd (cocktail_forward yc e b False s)" using f by simp
    have l1: "length (arr s1) = length (arr s)" unfolding s1 by simp
    show ?thesis
    proof (cases sw1)
      case False
      then have nf: "\<not> fst (cocktail_forward yc e b False s)" using f by simp
      from cocktail_forward_unswapped [OF nf] f
      have same: "arr s1 = arr s"
        and adj: "\<forall>k. b \<le> k \<and> k < e \<longrightarrow> arr s ! k \<le> arr s ! (k + 1)" by simp_all
      have "\<forall>k. k + 1 < length (arr s) \<longrightarrow> arr s ! k \<le> arr s ! (k + 1)"
      proof (intro allI impI)
        fix k assume k: "k + 1 < length (arr s)"
        show "arr s ! k \<le> arr s ! (k + 1)"
        proof (cases "k < b")
          case True
          with k show ?thesis by (intro pre) simp
        next
          case nb: False
          show ?thesis
          proof (cases "k < e")
            case True
            with nb adj show ?thesis by simp
          next
            case False
            with k show ?thesis by (intro suf) simp
          qed
        qed
      qed
      then have "sorted (arr s1)" unfolding same by (rule sorted_adjacent)
      with True False f show ?thesis by (subst cocktail_while.simps) simp
    next
      case sw1: True
      have pre1: "prefix_settled b (arr s1)"
        unfolding s1 using "1.prems" by (simp add: prefix_cocktail_forward)
      have suf1: "suffix_settled (e + 1) (arr s1)"
        unfolding s1 using "1.prems" by (simp add: suffix_cocktail_forward)
      have mx: "\<forall>k. b \<le> k \<and> k < e \<longrightarrow> arr s1 ! k \<le> arr s1 ! e"
        unfolding s1 using "1.prems" True by (intro cocktail_forward_max) simp_all
      have sufe: "suffix_settled e (arr s1)"
        unfolding suffix_settled_def
      proof (intro allI impI)
        fix p q assume a: "p \<le> q \<and> e \<le> q \<and> q < length (arr s1)"
        show "arr s1 ! p \<le> arr s1 ! q"
        proof (cases "q = e")
          case qe: True
          show ?thesis
          proof (cases "p < b")
            case True
            with a pre1 show ?thesis unfolding prefix_settled_def by simp
          next
            case False
            with a qe mx show ?thesis by (cases "p = q") auto
          qed
        next
          case False
          with a suf1 show ?thesis unfolding suffix_settled_def by simp
        qed
      qed
      obtain sw2 s2 where k: "cocktail_backward yc b (e - 1) False s1 = (sw2, s2)"
        by (cases "cocktail_backward yc b (e - 1) False s1")
      have s2: "s2 = snd (cocktail_backward yc b (e - 1) False s1)" using k by simp
      have l2: "length (arr s2) = length (arr s)" unfolding s2 using l1 by simp
      show ?thesis
      proof (cases sw2)
        case False
        then have nf: "\<not> fst (cocktail_backward yc b (e - 1) False s1)" using k by simp
        from cocktail_backward_unswapped [OF nf] k
        have same: "arr s2 = arr s1"
          and adj: "\<forall>k. b \<le> k \<and> k < e - 1 \<longrightarrow> arr s1 ! k \<le> arr s1 ! (k + 1)" by simp_all
        have "\<forall>k. k + 1 < length (arr s1) \<longrightarrow> arr s1 ! k \<le> arr s1 ! (k + 1)"
        proof (intro allI impI)
          fix k assume k: "k + 1 < length (arr s1)"
          show "arr s1 ! k \<le> arr s1 ! (k + 1)"
          proof (cases "k < b")
            case True
            with k pre1 show ?thesis unfolding prefix_settled_def by simp
          next
            case nb: False
            show ?thesis
            proof (cases "k < e - 1")
              case True
              with nb adj show ?thesis by simp
            next
              case False
              with k sufe show ?thesis unfolding suffix_settled_def by simp
            qed
          qed
        qed
        then have "sorted (arr s2)" unfolding same by (rule sorted_adjacent)
        with True sw1 False f k show ?thesis
          by (subst cocktail_while.simps) (simp add: Let_def)
      next
        case sw2: True
        have pre2: "prefix_settled b (arr s2)"
          unfolding s2 using "1.prems" l1 True pre1 by (simp add: prefix_cocktail_backward)
        have suf2: "suffix_settled e (arr s2)"
          unfolding s2 using "1.prems" l1 True sufe by (simp add: suffix_cocktail_backward)
        have mn: "\<forall>k. b < k \<and> k \<le> e - 1 \<longrightarrow> arr s2 ! b \<le> arr s2 ! k"
          unfolding s2 using "1.prems" l1 True by (intro cocktail_backward_min) simp_all
        have pre2': "prefix_settled (b + 1) (arr s2)"
          unfolding prefix_settled_def
        proof (intro allI impI)
          fix p q assume a: "p \<le> q \<and> p < b + 1 \<and> q < length (arr s2)"
          show "arr s2 ! p \<le> arr s2 ! q"
          proof (cases "p = b")
            case pb: True
            show ?thesis
            proof (cases "q \<le> e - 1")
              case True
              with a pb mn show ?thesis by (cases "q = p") auto
            next
              case False
              with a suf2 show ?thesis unfolding suffix_settled_def by simp
            qed
          next
            case False
            with a pre2 show ?thesis unfolding prefix_settled_def by simp
          qed
        qed
        from "1.IH" [OF True f [symmetric] _ refl k [symmetric]] sw1 sw2 "1.prems" l2 True
          pre2' suf2
        have "sorted (arr (cocktail_while yc (b + 1) (e - 1) s2))" by simp
        with True sw1 sw2 f k show ?thesis
          by (subst cocktail_while.simps) (simp add: Let_def)
      qed
    qed
  qed
qed

lemma prefix_settled_0: "prefix_settled 0 xs"
  by (simp add: prefix_settled_def)

lemma cocktailShakerSort_sorts:
  "mset (arr (cocktailShakerSort a yc)) = mset a \<and> sorted (arr (cocktailShakerSort a yc))"
proof (cases "a = []")
  case True
  then show ?thesis
    by (simp add: cocktailShakerSort_def Let_def initial_def, subst (1 2) cocktail_while.simps) simp
next
  case False
  then have "length a - 1 < length (arr (initial a))" by (simp add: initial_def)
  from mset_cocktail_while [OF this, of yc 0] sorted_cocktail_while [OF this, of 0 yc] False
  show ?thesis
    by (simp add: cocktailShakerSort_def Let_def initial_def prefix_settled_0
        suffix_settled_length)
qed

subsection \<open>Selection sort\<close>

lemma prefix_settled_sorted: "length xs - 1 \<le> b \<Longrightarrow> prefix_settled b xs \<Longrightarrow> sorted xs"
  unfolding prefix_settled_def
  by (auto simp: sorted_iff_nth_Suc)

lemma arr_selection_inner [simp]:
  "arr (snd (selection_inner yc n i j minIndex previous s)) = arr s"
  by (induction yc n i j minIndex previous s rule: selection_inner.induct)
    (subst selection_inner.simps, simp add: Let_def)

lemma selection_inner_min:
  "i \<le> m \<Longrightarrow> m < j \<Longrightarrow> j \<le> n \<Longrightarrow> \<forall>k. i \<le> k \<and> k < j \<longrightarrow> arr s ! m \<le> arr s ! k \<Longrightarrow>
     i \<le> fst (selection_inner yc n i j m previous s)
     \<and> fst (selection_inner yc n i j m previous s) < n
     \<and> (\<forall>k. i \<le> k \<and> k < n \<longrightarrow>
          arr s ! fst (selection_inner yc n i j m previous s) \<le> arr s ! k)"
proof (induction yc n i j m previous s rule: selection_inner.induct)
  case (1 yc n i j m previous s)
  show ?case
  proof (cases "j < n")
    case False
    with "1.prems" have "j = n" by simp
    with False "1.prems" show ?thesis by (subst (1 2 3) selection_inner.simps) simp
  next
    case True
    let ?s = "yield_if yc (Some previous) (Some [i, j]) (count_comparison s)"
    let ?m = "if arr ?s ! j < arr ?s ! m then j else m"
    have unf: "selection_inner yc n i j m previous s = selection_inner yc n i (j + 1) ?m previous ?s"
      using True by (subst selection_inner.simps) (simp add: Let_def)
    have inv: "\<forall>k. i \<le> k \<and> k < j + 1 \<longrightarrow> arr ?s ! ?m \<le> arr ?s ! k"
    proof (intro allI impI)
      fix k assume k: "i \<le> k \<and> k < j + 1"
      show "arr ?s ! ?m \<le> arr ?s ! k"
      proof (cases "k = j")
        case True
        then show ?thesis by simp
      next
        case False
        with k have "k < j" by simp
        with k "1.prems" have "arr s ! m \<le> arr s ! k" by simp
        then show ?thesis by auto
      qed
    qed
    have "i \<le> ?m" "?m < j + 1" "j + 1 \<le> n" using "1.prems" True by auto
    from "1.IH" [OF True refl refl refl this inv]
    show ?thesis unfolding unf by simp
  qed
qed

lemma selection_inner_start:
  assumes "i + 1 \<le> n"
  shows "i \<le> fst (selection_inner yc n i (i + 1) i previous s)"
    and "fst (selection_inner yc n i (i + 1) i previous s) < n"
    and "\<forall>k. i \<le> k \<and> k < n \<longrightarrow>
          arr s ! fst (selection_inner yc n i (i + 1) i previous s) \<le> arr s ! k"
proof -
  have "\<forall>k. i \<le> k \<and> k < i + 1 \<longrightarrow> arr s ! i \<le> arr s ! k"
  proof (intro allI impI)
    fix k assume "i \<le> k \<and> k < i + 1"
    then have "k = i" by simp
    then show "arr s ! i \<le> arr s ! k" by simp
  qed
  from selection_inner_min [where i = i and m = i and j = "i + 1" and n = n and s = s
      and yc = yc and previous = previous, OF _ _ assms this]
  show "i \<le> fst (selection_inner yc n i (i + 1) i previous s)"
    and "fst (selection_inner yc n i (i + 1) i previous s) < n"
    and "\<forall>k. i \<le> k \<and> k < n \<longrightarrow>
          arr s ! fst (selection_inner yc n i (i + 1) i previous s) \<le> arr s ! k"
    by simp_all
qed

lemma length_selection_outer [simp]:
  "length (arr (selection_outer yc n i previous s)) = length (arr s)"
proof (induction yc n i previous s rule: selection_outer.induct)
  case (1 yc n i previous s)
  obtain m s1 where p: "selection_inner yc n i (i + 1) i previous s = (m, s1)"
    by (cases "selection_inner yc n i (i + 1) i previous s")
  have s1: "s1 = snd (selection_inner yc n i (i + 1) i previous s)" using p by simp
  have a: "arr s1 = arr s" unfolding s1 by simp
  show ?case
    using "1.IH" [OF _ p [symmetric]] p a
    by (subst selection_outer.simps) (auto simp: Let_def)
qed

lemma mset_selection_outer:
  "n \<le> length (arr s) \<Longrightarrow> mset (arr (selection_outer yc n i previous s)) = mset (arr s)"
proof (induction yc n i previous s rule: selection_outer.induct)
  case (1 yc n i previous s)
  show ?case
  proof (cases "i + 1 < n")
    case False
    then show ?thesis by (subst selection_outer.simps) simp
  next
    case True
    obtain m s1 where p: "selection_inner yc n i (i + 1) i previous s = (m, s1)"
      by (cases "selection_inner yc n i (i + 1) i previous s")
    have s1: "s1 = snd (selection_inner yc n i (i + 1) i previous s)" using p by simp
    have m: "m = fst (selection_inner yc n i (i + 1) i previous s)" using p by simp
    have a: "arr s1 = arr s" unfolding s1 by simp
    have mn: "i \<le> m \<and> m < n"
      unfolding m using selection_inner_start [where i = i and n = n and yc = yc and previous = previous and s = s] True by simp
    show ?thesis
      using "1.IH" [OF True p [symmetric]] p a mn True "1.prems"
      by (subst selection_outer.simps) (auto simp: Let_def)
  qed
qed

lemma sorted_selection_outer:
  "n = length (arr s) \<Longrightarrow> prefix_settled i (arr s) \<Longrightarrow>
     sorted (arr (selection_outer yc n i previous s))"
proof (induction yc n i previous s rule: selection_outer.induct)
  case (1 yc n i previous s)
  show ?case
  proof (cases "i + 1 < n")
    case False
    with "1.prems" have "sorted (arr s)" by (intro prefix_settled_sorted [of _ i]) simp_all
    with False show ?thesis by (subst selection_outer.simps) simp
  next
    case True
    obtain m s1 where p: "selection_inner yc n i (i + 1) i previous s = (m, s1)"
      by (cases "selection_inner yc n i (i + 1) i previous s")
    have s1: "s1 = snd (selection_inner yc n i (i + 1) i previous s)" using p by simp
    have m: "m = fst (selection_inner yc n i (i + 1) i previous s)" using p by simp
    have a: "arr s1 = arr s" unfolding s1 by simp
    have mn: "i \<le> m" "m < n" "\<forall>k. i \<le> k \<and> k < n \<longrightarrow> arr s ! m \<le> arr s ! k"
      unfolding m using selection_inner_start [where i = i and n = n and yc = yc and previous = previous and s = s] True by simp_all
    have next_settled: "prefix_settled (i + 1) (swap (arr s) i m)"
      unfolding prefix_settled_def
    proof (intro allI impI)
      fix p q assume pq: "p \<le> q \<and> p < i + 1 \<and> q < length (swap (arr s) i m)"
      show "swap (arr s) i m ! p \<le> swap (arr s) i m ! q"
      proof (cases "p = i")
        case True
        with pq mn "1.prems" show ?thesis by (auto simp: nth_swap)
      next
        case False
        with pq have "p < i" by simp
        with pq mn "1.prems"(1) "1.prems"(2) [unfolded prefix_settled_def, rule_format, of p]
        show ?thesis by (auto simp: nth_swap)
      qed
    qed
    have same: "swap (arr s) i i = arr s" by (simp add: swap_def)
    show ?thesis
    proof (cases "m = i")
      case True
      from "1.IH"(2) [OF \<open>i + 1 < n\<close> p [symmetric]] True "1.prems" a next_settled same
      have "sorted (arr (selection_outer yc n (i + 1) previous s1))" by simp
      with True \<open>i + 1 < n\<close> p show ?thesis by (subst selection_outer.simps) simp
    next
      case False
      let ?t = "yield (Some [i, m]) None (count_swaps 1 (exchange i m s1))"
      from "1.IH"(1) [OF \<open>i + 1 < n\<close> p [symmetric] False refl refl refl refl]
        "1.prems" a next_settled
      have "sorted (arr (selection_outer yc n (i + 1) [i, m] ?t))" by simp
      with False \<open>i + 1 < n\<close> p show ?thesis
        by (subst selection_outer.simps) (simp add: Let_def)
    qed
  qed
qed

lemma selectionSort_sorts:
  "mset (arr (selectionSort a yc)) = mset a \<and> sorted (arr (selectionSort a yc))"
  using sorted_selection_outer [of "length a" "initial a" 0 yc "[]"]
    mset_selection_outer [of "length a" "initial a" yc 0 "[]"]
  by (simp add: selectionSort_def Let_def initial_def prefix_settled_0)

subsection \<open>Gnome sort\<close>

lemma swap_commute: "swap xs i j = swap xs j i"
  by (cases "i = j") (simp_all add: swap_def list_update_swap)

lemma js_get_Some: "i < length xs \<Longrightarrow> js_get (map Some xs) i = Some (xs ! i)"
  by (simp add: js_get_def)

lemma js_exchange_Some:
  assumes "arr s = map Some xs" and "i < length xs" and "j < length xs"
  shows "arr (js_exchange i j s) = map Some (swap xs i j)"
  using assms by (simp add: js_exchange_def Let_def js_get_def js_set_def swap_def map_update)

lemma gnome_loop_sorts:
  assumes "arr s = map Some xs" and "2 \<le> length xs"
    and "\<forall>j. j + 1 < index \<longrightarrow> xs ! j \<le> xs ! (j + 1)"
  shows "\<exists>s' ys. gnome_loop yc index s = Some s' \<and> arr s' = map Some ys
           \<and> sorted ys \<and> mset ys = mset xs"
  using assms
proof (induction "(xs, length xs - index)" arbitrary: xs index s
    rule: wf_induct_rule [OF wf_lex_prod [OF wf_smaller wf_less_than]])
  case 1
  note IH = 1(1) and a = 1(2) and n = 1(3) and inv = 1(4)
  show ?case
  proof (cases "index < length xs")
    case False
    then have "\<forall>k. k + 1 < length xs \<longrightarrow> xs ! k \<le> xs ! (k + 1)" using inv by simp
    then have "sorted xs" by (rule sorted_adjacent)
    with False a show ?thesis by (subst gnome_loop.simps) simp
  next
    case True
    define i where "i = (if index = 0 then index + 1 else index)"
    have i: "0 < i" "i < length xs" "index \<le> i" using True n by (auto simp: i_def)
    let ?s = "yield_if yc (Some []) (Some [i - 1, i]) (count_comparison s)"
    have as: "arr ?s = map Some xs" using a by simp
    have ge: "js_ge (js_get (arr ?s) i) (js_get (arr ?s) (i - 1)) \<longleftrightarrow> xs ! (i - 1) \<le> xs ! i"
      using i by (simp add: a js_get_Some js_ge_def)
    show ?thesis
    proof (cases "xs ! (i - 1) \<le> xs ! i")
      case le: True
      have unf: "gnome_loop yc index s = gnome_loop yc (i + 1) ?s"
        using True le ge a by (subst gnome_loop.simps) (simp add: Let_def i_def)
      have inv': "\<forall>j. j + 1 < i + 1 \<longrightarrow> xs ! j \<le> xs ! (j + 1)"
      proof (intro allI impI)
        fix j assume j: "j + 1 < i + 1"
        show "xs ! j \<le> xs ! (j + 1)"
        proof (cases "j + 1 = i")
          case True
          with le show ?thesis by auto
        next
          case False
          with j have "j + 1 < i" by simp
          then have "j + 1 < index" by (auto simp: i_def split: if_splits)
          with inv show ?thesis by simp
        qed
      qed
      have "((xs, length xs - (i + 1)), (xs, length xs - index)) \<in> smaller <*lex*> less_than"
        using i True by auto
      from IH [OF this as n inv'] show ?thesis unfolding unf .
    next
      case gt: False
      let ?t = "yield_if yc (Some [i - 1, i]) (Some []) (count_swaps 1 (js_exchange i (i - 1) ?s))"
      have unf: "gnome_loop yc index s = gnome_loop yc (i - 1) ?t"
        using True gt ge a by (subst gnome_loop.simps) (simp add: Let_def i_def)
      have at: "arr ?t = map Some (swap xs i (i - 1))"
        using js_exchange_Some [OF as, of i "i - 1"] i by simp
      have sm: "(swap xs i (i - 1), xs) \<in> smaller"
        using swap_smaller [of "i - 1" i xs] i gt by (simp add: swap_commute)
      have inv': "\<forall>j. j + 1 < i - 1 \<longrightarrow> swap xs i (i - 1) ! j \<le> swap xs i (i - 1) ! (j + 1)"
      proof (intro allI impI)
        fix j assume j: "j + 1 < i - 1"
        then have "j + 1 < index" by (auto simp: i_def split: if_splits)
        with inv have "xs ! j \<le> xs ! (j + 1)" by simp
        moreover have "j \<noteq> i" "j \<noteq> i - 1" "j + 1 \<noteq> i" "j + 1 \<noteq> i - 1" "i - 1 < length xs"
          using j i by auto
        ultimately show "swap xs i (i - 1) ! j \<le> swap xs i (i - 1) ! (j + 1)"
          using i by (simp only: nth_swap if_False)
      qed
      have "((swap xs i (i - 1), length (swap xs i (i - 1)) - (i - 1)), (xs, length xs - index))
          \<in> smaller <*lex*> less_than"
        using sm by simp
      from IH [OF this at _ inv'] n obtain s' ys where
        "gnome_loop yc (i - 1) ?t = Some s'" "arr s' = map Some ys" "sorted ys"
        "mset ys = mset (swap xs i (i - 1))"
        by auto
      with i show ?thesis unfolding unf by auto
    qed
  qed
qed

lemma gnomeSort_sorts:
  assumes "2 \<le> length a"
  shows "\<exists>s ys. gnomeSort a yc = Some s \<and> arr s = map Some ys \<and> sorted ys \<and> mset ys = mset a"
proof -
  have "arr (initial (map Some a)) = map Some a" by (simp add: initial_def)
  from gnome_loop_sorts [OF this assms, of 0 yc]
  obtain s' ys where "gnome_loop yc 0 (initial (map Some a)) = Some s'"
    "arr s' = map Some ys" "sorted ys" "mset ys = mset a"
    by auto
  then show ?thesis by (auto simp: gnomeSort_def)
qed

text \<open>
  On a one-element array the loop never ends: it moves the element to position 1, then
  back to position 0, with \<open>index\<close> back at 0 each time.
\<close>

lemma gnome_loop_single:
  assumes "gnome_loop yc index s = Some s'"
  shows "\<not> (index = 0 \<and> (arr s = [Some x] \<or> arr s = [None, Some x] \<or> arr s = [Some x, None]))"
proof (rule gnome_loop.raw_induct [OF _ assms], goal_cases)
  case (1 f yc index s s')
  show ?case
  proof
    assume inv: "index = 0 \<and> (arr s = [Some x] \<or> arr s = [None, Some x] \<or> arr s = [Some x, None])"
    define t where "t = yield_if yc (Some [0, 1]) (Some [])
      (count_swaps 1 (js_exchange 1 0 (yield_if yc (Some []) (Some [0, 1]) (count_comparison s))))"
    have ge: "\<not> js_ge (js_get (arr s) 1) (js_get (arr s) 0)"
      using inv by (auto simp: js_ge_def js_get_def)
    have step: "f yc 0 t = Some s'"
      using 1(2) inv ge by (auto simp: t_def Let_def)
    have "arr t = [Some x] \<or> arr t = [None, Some x] \<or> arr t = [Some x, None]"
      using inv by (auto simp: t_def js_exchange_def js_get_def js_set_def Let_def)
    with 1(1) [OF step] show False by simp
  qed
qed

lemma gnomeSort_single: "gnomeSort [x] yc = None"
proof (cases "gnome_loop yc 0 (initial [Some x])")
  case None
  then show ?thesis by (simp add: gnomeSort_def)
next
  case (Some s')
  from gnome_loop_single [OF this, of x] show ?thesis by (simp add: initial_def)
qed

text \<open>
  C1: every driver is to return with the array sorted in its last step, for every
  permutation of \<open>0..N-1\<close> with \<open>N \<ge> 1\<close>.  Gnome sort does so for \<open>N \<ge> 2\<close>
  (\<open>gnomeSort_sorts\<close>), but on the one-element array \<open>[0]\<close> it never returns: \<open>index++\<close>
  at \<open>index = 0\<close> is followed by a read of \<open>arr[1]\<close> with no test of the bound, the
  comparison with \<open>undefined\<close> fails, and the exchange moves the element out and back for
  ever (\<open>gnomeSort_single\<close>).  Bitonic sort halves its range with \<open>Math.floor\<close> and never
  looks at the last element of a range of odd length: it leaves \<open>[0, 2, 1]\<close> as it is.
  Merge sort, the only driver without a terminal step, yields no step on \<open>[0]\<close>.
\<close>

theorem gnomeSort_single_never_returns:
  "gnomeSort [0] True = None
   \<and> gnomeSort [1, 0] True \<noteq> None
   \<and> array (last (yielded (the (gnomeSort [1, 0] True)))) = [Some 0, Some 1]
   \<and> array (last (yielded (bitonicSort [0, 2, 1] True True))) = [0, 2, 1]
   \<and> arr (bitonicSort [0, 2, 1] True True) = [0, 2, 1]
   \<and> array (last (yielded (bitonicSort [1, 3, 0, 2] True True))) = [0, 1, 2, 3]
   \<and> yielded (mergeSort [0] True) = []"
proof -
  have "gnomeSort [0] True = None" by (rule gnomeSort_single)
  moreover have "gnomeSort [1, 0] True \<noteq> None
     \<and> array (last (yielded (the (gnomeSort [1, 0] True)))) = [Some 0, Some 1]
     \<and> array (last (yielded (bitonicSort [0, 2, 1] True True))) = [0, 2, 1]
     \<and> arr (bitonicSort [0, 2, 1] True True) = [0, 2, 1]
     \<and> array (last (yielded (bitonicSort [1, 3, 0, 2] True True))) = [0, 1, 2, 3]
     \<and> yielded (mergeSort [0] True) = []"
    by code_simp
  ultimately show ?thesis by simp
qed

end
